theory Spec2Isabelle
  imports Complex_Main "HOL-Library.Word"
begin

section \<open>Numbers and failures of the C++ program\<close>

text \<open>
  The fractal generator of \<^verbatim>\<open>src/main.cpp\<close> computes with \<^verbatim>\<open>double\<close>,
  \<^verbatim>\<open>std::complex<double>\<close>, \<^verbatim>\<open>int\<close>, \<^verbatim>\<open>unsigned\<close> and
  \<^verbatim>\<open>unsigned char\<close>.  In this development a \<^verbatim>\<open>double\<close> is an exact real
  number: rounding, infinities and NaN are not represented, and \<^verbatim>\<open>log2\<close>,
  \<^verbatim>\<open>exp\<close>, \<^verbatim>\<open>cos\<close> and \<^verbatim>\<open>M_PI\<close> are the mathematical functions and
  constant.  The integer types keep their ranges: an operation whose result the type
  cannot hold, or an access outside an array, has no defined behaviour in C++ and is an
  explicit failure value here.
\<close>

datatype error =
    SignedOverflow        \<comment> \<open>an \<^verbatim>\<open>int\<close> operation leaves the range of \<^verbatim>\<open>int\<close>\<close>
  | ConversionOutOfRange  \<comment> \<open>a \<^verbatim>\<open>double\<close> is converted to an integer type that cannot hold it\<close>
  | IndexOutOfRange       \<comment> \<open>an array or vector element outside the allocation\<close>
  | BadArrayNewLength     \<comment> \<open>\<^verbatim>\<open>new T[n]\<close> with negative \<^verbatim>\<open>n\<close> throws \<^verbatim>\<open>std::bad_array_new_length\<close>\<close>

definition bindE :: "error + 'a \<Rightarrow> ('a \<Rightarrow> error + 'b) \<Rightarrow> error + 'b" where
  "bindE r f = (case r of Inl e \<Rightarrow> Inl e | Inr v \<Rightarrow> f v)"

definition INT_MAX :: int where
  "INT_MAX = 2147483647"

definition INT_MIN :: int where
  "INT_MIN = - 2147483648"

definition UINT_MAX :: int where
  "UINT_MAX = 4294967295"

text \<open>Conversion of a \<^verbatim>\<open>double\<close> to an integer type discards the fractional part.\<close>

definition trunc_toward_zero :: "real \<Rightarrow> int" where
  "trunc_toward_zero r = (if 0 \<le> r then \<lfloor>r\<rfloor> else \<lceil>r\<rceil>)"

definition double_to_int :: "real \<Rightarrow> error + int" where
  "double_to_int r =
     (if INT_MIN \<le> trunc_toward_zero r \<and> trunc_toward_zero r \<le> INT_MAX then Inr (trunc_toward_zero r)
      else Inl ConversionOutOfRange)"

definition double_to_unsigned :: "real \<Rightarrow> error + nat" where
  "double_to_unsigned r =
     (if 0 \<le> trunc_toward_zero r \<and> trunc_toward_zero r \<le> UINT_MAX then Inr (nat (trunc_toward_zero r))
      else Inl ConversionOutOfRange)"

definition double_to_uchar :: "real \<Rightarrow> error + 8 word" where
  "double_to_uchar r =
     (if 0 \<le> trunc_toward_zero r \<and> trunc_toward_zero r \<le> 255 then Inr (word_of_int (trunc_toward_zero r))
      else Inl ConversionOutOfRange)"

text \<open>\<^verbatim>\<open>int\<close> multiplication, and \<^verbatim>\<open>int\<close> division, which rounds towards zero.\<close>

definition int_mul :: "int \<Rightarrow> int \<Rightarrow> error + int" where
  "int_mul a b =
     (if INT_MIN \<le> a * b \<and> a * b \<le> INT_MAX then Inr (a * b) else Inl SignedOverflow)"

definition int_div :: "int \<Rightarrow> int \<Rightarrow> int" where
  "int_div a b = (if (0 \<le> a) = (0 \<le> b) then \<bar>a\<bar> div \<bar>b\<bar> else - (\<bar>a\<bar> div \<bar>b\<bar>))"

section \<open>Color and Image\<close>

record Color =
  red :: "8 word"
  green :: "8 word"
  blue :: "8 word"

text \<open>
  \<^verbatim>\<open>Image\<close> owns \<^verbatim>\<open>height\<close> rows of \<^verbatim>\<open>width * 3\<close> colours each.  The rows
  are not initialised: a cell that was never written is \<open>None\<close>.  \<open>data img (y, x)\<close>
  is the source's \<^verbatim>\<open>data[y][x]\<close>.
\<close>

record Image =
  data :: "int \<times> int \<Rightarrow> Color option"
  width :: int
  height :: int

text \<open>
  The constructor \<^verbatim>\<open>Image (int width, int height)\<close>: \<^verbatim>\<open>new Color* [height]\<close>, then
  one \<^verbatim>\<open>new Color [width * 3]\<close> for each row.  With no row the product is never
  computed.  Memory is taken to be sufficient.
\<close>

definition Image_ctor :: "int \<Rightarrow> int \<Rightarrow> error + Image" where
  "Image_ctor w h =
     (if h < 0 then Inl BadArrayNewLength
      else if h = 0 then Inr \<lparr>data = (\<lambda>_. None), width = w, height = h\<rparr>
      else bindE (int_mul w 3) (\<lambda>n.
        if n < 0 then Inl BadArrayNewLength
        else Inr \<lparr>data = (\<lambda>_. None), width = w, height = h\<rparr>))"

text \<open>The cells of the allocation: row \<open>y\<close> exists and has \<open>width * 3\<close> cells.\<close>

definition allocated :: "Image \<Rightarrow> int \<Rightarrow> int \<Rightarrow> bool" where
  "allocated img x y \<longleftrightarrow> 0 \<le> y \<and> y < height img \<and> 0 \<le> x \<and> x < width img * 3"

section \<open>The fractal engine\<close>

record Mandlebrot =
  image_m :: Image
  colorList :: "Color list"
  bodyColor :: Color
  left :: real
  right :: real
  top_m :: real
  bottom :: real
  maxIterations :: int
  stopNorm :: real
  mSmooth :: real
  bSmooth :: real

text \<open>\<^verbatim>\<open>std::norm\<close> is the squared magnitude; \<^verbatim>\<open>step\<close> is the map of the fractal.\<close>

definition std_norm :: "complex \<Rightarrow> real" where
  "std_norm z = Re z * Re z + Im z * Im z"

definition step :: "complex \<Rightarrow> complex \<Rightarrow> complex" where
  "step z c = z * z + c"

text \<open>
  The constructor \<^verbatim>\<open>Mandlebrot (resolution, left, top, right, bottom)\<close>: the image
  is built from the two converted products, then the parameters are stored and the two
  smoothing coefficients computed.
\<close>

definition Mandlebrot_ctor :: "real \<Rightarrow> real \<Rightarrow> real \<Rightarrow> real \<Rightarrow> real \<Rightarrow> error + Mandlebrot" where
  "Mandlebrot_ctor resolution l t r b =
     bindE (double_to_int (resolution * (r - l))) (\<lambda>w.
     bindE (double_to_int (resolution * (t - b))) (\<lambda>h.
     bindE (Image_ctor w h) (\<lambda>img.
       let ms = 1 / log 2 (0.5 * log 2 (std_norm (step (Complex 100000 0) 0)) / log 2 100000);
           bs = log 2 (0.5 * log 2 400) * ms
       in Inr \<lparr>image_m = img, colorList = [], bodyColor = \<lparr>red = 0, green = 0, blue = 0\<rparr>,
                left = l, right = r, top_m = t, bottom = b,
                maxIterations = 100, stopNorm = 400, mSmooth = ms, bSmooth = bs\<rparr>)))"

text \<open>The size of the raster a construction produced, or its failure.\<close>

definition rasterSize :: "error + Mandlebrot \<Rightarrow> error + int \<times> int" where
  "rasterSize r = bindE r (\<lambda>m. Inr (width (image_m m), height (image_m m)))"

text \<open>
  \<^verbatim>\<open>main\<close> builds the fractal with resolution 500 on the rectangle from
  \<open>(-2.7, 1.25)\<close> to \<open>(1.7, -1.25)\<close> and pushes five colours.
\<close>

definition mainColors :: "Color list" where
  "mainColors =
     [\<lparr>red = 0, green = 0, blue = 40\<rparr>,
      \<lparr>red = 0, green = 50, blue = 100\<rparr>,
      \<lparr>red = 0, green = 200, blue = 0\<rparr>,
      \<lparr>red = 255, green = 255, blue = 100\<rparr>,
      \<lparr>red = 255, green = 255, blue = 255\<rparr>]"

definition push_back_all :: "Color list \<Rightarrow> Mandlebrot \<Rightarrow> Mandlebrot" where
  "push_back_all cs m = m\<lparr>colorList := colorList m @ cs\<rparr>"

definition mainFractal :: "error + Mandlebrot" where
  "mainFractal =
     bindE (Mandlebrot_ctor 500 (- 27 / 10) (5 / 4) (17 / 10) (- 5 / 4))
       (\<lambda>m. Inr (push_back_all mainColors m))"

section \<open>computePixel\<close>

text \<open>
  The position of pixel \<open>(x, y)\<close> in the complex plane.  For a pixel of the raster the
  width and the height are positive, and no division by zero takes place.
\<close>

definition pixelPoint :: "Mandlebrot \<Rightarrow> int \<Rightarrow> int \<Rightarrow> complex" where
  "pixelPoint m x y =
     Complex (left m + (right m - left m) * real_of_int x / real_of_int (width (image_m m)))
             (top_m m + (bottom m - top_m m) * real_of_int y / real_of_int (height (image_m m)))"

text \<open>
  The loop \<^verbatim>\<open>while (std::norm(z) < stopNorm && iN++ < maxIterations) z = step (z,c);\<close>
  The second operand is evaluated only when the first holds; it compares the old value
  of \<^verbatim>\<open>iN\<close> and increments it whatever the comparison gives.  The result is the
  pair of \<^verbatim>\<open>z\<close> and \<^verbatim>\<open>iN\<close> at the exit of the loop.
\<close>

function escapeLoop :: "Mandlebrot \<Rightarrow> complex \<Rightarrow> complex \<Rightarrow> int \<Rightarrow> error + complex \<times> int" where
  "escapeLoop m c z iN =
     (if std_norm z < stopNorm m then
        (if iN = INT_MAX then Inl SignedOverflow
         else if iN < maxIterations m then escapeLoop m c (step z c) (iN + 1)
         else Inr (z, iN + 1))
      else Inr (z, iN))"
  by pat_completeness auto
termination
  by (relation "measure (\<lambda>(m, c, z, iN). nat (maxIterations m - iN))") auto

declare escapeLoop.simps [simp del]

definition loopExit :: "Mandlebrot \<Rightarrow> int \<Rightarrow> int \<Rightarrow> error + complex \<times> int" where
  "loopExit m x y = escapeLoop m (pixelPoint m x y) (pixelPoint m x y) 0"

text \<open>\<^verbatim>\<open>colorList[i]\<close>: \<^verbatim>\<open>std::vector::operator[]\<close> does not check the index.\<close>

definition vector_at :: "'a list \<Rightarrow> nat \<Rightarrow> error + 'a" where
  "vector_at xs i = (if i < length xs then Inr (xs ! i) else Inl IndexOutOfRange)"

text \<open>
  The smoothed iteration number \<^verbatim>\<open>fN\<close> and the position \<^verbatim>\<open>nC\<close> in the colour
  list.  \<^verbatim>\<open>colorList.size() - 1\<close> is computed in \<^verbatim>\<open>size_t\<close>, of 64 bits.
\<close>

definition smoothedIterations :: "Mandlebrot \<Rightarrow> complex \<Rightarrow> int \<Rightarrow> real" where
  "smoothedIterations m z iN =
     real_of_int iN + bSmooth m - mSmooth m * log 2 (0.5 * log 2 (std_norm z))"

definition colorPosition :: "Mandlebrot \<Rightarrow> real \<Rightarrow> real" where
  "colorPosition m fN =
     (1 - exp (- 0.05 * fN)) * real_of_int ((int (length (colorList m)) - 1) mod 2 ^ 64)"

definition mixWeight :: "real \<Rightarrow> real" where
  "mixWeight fC = 0.5 * (1 + cos (pi * fC))"

definition blend :: "8 word \<Rightarrow> 8 word \<Rightarrow> real \<Rightarrow> real" where
  "blend a b mix = real (unat a) * mix + real (unat b) * (1 - mix)"

text \<open>
  The interpolation between two neighbours of the colour list: \<^verbatim>\<open>iC\<close>,
  \<^verbatim>\<open>fC\<close>, \<^verbatim>\<open>color1\<close>, \<^verbatim>\<open>color2\<close>, \<^verbatim>\<open>mix\<close> and the three blended
  \<^verbatim>\<open>double\<close> values, before they are converted to \<^verbatim>\<open>unsigned char\<close>.
  \<^verbatim>\<open>iC + 1\<close> is computed in \<^verbatim>\<open>unsigned\<close>, of 32 bits.
\<close>

definition interpolate :: "Color list \<Rightarrow> real \<Rightarrow> error + real \<times> real \<times> real" where
  "interpolate cl nC =
     bindE (double_to_unsigned nC) (\<lambda>iC.
       let fC = nC - real iC in
       bindE (vector_at cl iC) (\<lambda>color1.
       bindE (vector_at cl ((iC + 1) mod 2 ^ 32)) (\<lambda>color2.
         let mix = mixWeight fC in
         Inr (blend (red color1) (red color2) mix,
              blend (green color1) (green color2) mix,
              blend (blue color1) (blue color2) mix))))"

definition gradientColor :: "Mandlebrot \<Rightarrow> complex \<Rightarrow> int \<Rightarrow> error + Color" where
  "gradientColor m z iN =
     (let fN = smoothedIterations m z iN;
          nC = colorPosition m fN
      in bindE (interpolate (colorList m) nC) (\<lambda>(r, g, b).
           bindE (double_to_uchar r) (\<lambda>r'.
           bindE (double_to_uchar g) (\<lambda>g'.
           bindE (double_to_uchar b) (\<lambda>b'.
             Inr \<lparr>red = r', green = g', blue = b'\<rparr>)))))"

text \<open>The colour chosen after the loop: the body colour or a colour of the gradient.\<close>

definition chooseColor :: "Mandlebrot \<Rightarrow> complex \<Rightarrow> int \<Rightarrow> error + Color" where
  "chooseColor m z iN =
     (if iN \<ge> maxIterations m then Inr (bodyColor m) else gradientColor m z iN)"

definition setPixel :: "Mandlebrot \<Rightarrow> int \<Rightarrow> int \<Rightarrow> Color \<Rightarrow> Mandlebrot" where
  "setPixel m x y col =
     m\<lparr>image_m := (image_m m)\<lparr>data := (data (image_m m))((y, x) \<mapsto> col)\<rparr>\<rparr>"

text \<open>
  \<^verbatim>\<open>computePixel (x, y)\<close>: the loop, the reference to \<^verbatim>\<open>image.data[y][x]\<close>, the
  choice of the colour and its assignment.
\<close>

definition computePixel :: "Mandlebrot \<Rightarrow> int \<Rightarrow> int \<Rightarrow> error + Mandlebrot" where
  "computePixel m x y =
     bindE (loopExit m x y) (\<lambda>(z, iN).
       if \<not> allocated (image_m m) x y then Inl IndexOutOfRange
       else bindE (chooseColor m z iN) (\<lambda>col. Inr (setPixel m x y col)))"

text \<open>The colour \<^verbatim>\<open>computePixel\<close> assigns: a function of the parameters only.\<close>

definition pixelColor :: "Mandlebrot \<Rightarrow> int \<Rightarrow> int \<Rightarrow> error + Color" where
  "pixelColor m x y = bindE (loopExit m x y) (\<lambda>(z, iN). chooseColor m z iN)"

section \<open>computeArea and computeSingleCore\<close>

text \<open>
  The pixels \<^verbatim>\<open>computeArea\<close> visits, in its order: rows from \<^verbatim>\<open>topArea\<close> to
  \<^verbatim>\<open>bottomArea - 1\<close>, and in each row the columns from \<^verbatim>\<open>leftArea\<close> to
  \<^verbatim>\<open>rightArea - 1\<close>.
\<close>

definition areaPixels :: "int \<Rightarrow> int \<Rightarrow> int \<Rightarrow> int \<Rightarrow> (int \<times> int) list" where
  "areaPixels leftArea topArea rightArea bottomArea =
     concat (map (\<lambda>y. map (\<lambda>x. (x, y)) [leftArea..rightArea - 1]) [topArea..bottomArea - 1])"

fun computePixels :: "Mandlebrot \<Rightarrow> (int \<times> int) list \<Rightarrow> error + Mandlebrot" where
  "computePixels m [] = Inr m"
| "computePixels m ((x, y) # ps) = bindE (computePixel m x y) (\<lambda>m'. computePixels m' ps)"

definition computeArea :: "Mandlebrot \<Rightarrow> int \<Rightarrow> int \<Rightarrow> int \<Rightarrow> int \<Rightarrow> error + Mandlebrot" where
  "computeArea m leftArea topArea rightArea bottomArea =
     computePixels m (areaPixels leftArea topArea rightArea bottomArea)"

definition computeSingleCore :: "Mandlebrot \<Rightarrow> error + Mandlebrot" where
  "computeSingleCore m = computeArea m 0 0 (width (image_m m)) (height (image_m m))"

section \<open>computeMultiCore\<close>

text \<open>
  Each thread runs
  \<^verbatim>\<open>for (int currentBlock = nextBlock++; currentBlock < 100; currentBlock = nextBlock++)\<close>
  around a call of \<^verbatim>\<open>computeArea\<close> and the report of progress.  A thread is about to
  take a block, or inside \<^verbatim>\<open>computeArea\<close> with the pixels it still has to compute,
  or has left its loop.  The threads share the fractal and the two atomic counters.
  One step of a thread is the atomic \<^verbatim>\<open>nextBlock++\<close> with the computation of the
  bounds of the block, or one call of \<^verbatim>\<open>computePixel\<close>, or the report.  A schedule
  names the thread that makes each step.
\<close>

datatype worker = Claiming | Computing "(int \<times> int) list" | Finished

record multicore =
  fractal :: Mandlebrot
  nextBlock :: int
  doneBlock :: int
  workers :: "worker list"

text \<open>
  The arguments of \<^verbatim>\<open>computeArea\<close> for a block:
  \<^verbatim>\<open>(currentBlock+0) * image.width / 100\<close> and
  \<^verbatim>\<open>(currentBlock+1) * image.width / 100\<close>, in \<^verbatim>\<open>int\<close>.
\<close>

definition blockBounds :: "Mandlebrot \<Rightarrow> int \<Rightarrow> error + int \<times> int" where
  "blockBounds m currentBlock =
     bindE (int_mul (currentBlock + 0) (width (image_m m))) (\<lambda>a.
     bindE (int_mul (currentBlock + 1) (width (image_m m))) (\<lambda>b.
       Inr (int_div a 100, int_div b 100)))"

definition blockPixels :: "Mandlebrot \<Rightarrow> int \<Rightarrow> error + (int \<times> int) list" where
  "blockPixels m currentBlock =
     bindE (blockBounds m currentBlock) (\<lambda>(l, r).
       Inr (areaPixels l 0 r (height (image_m m))))"

definition setWorker :: "nat \<Rightarrow> worker \<Rightarrow> multicore \<Rightarrow> multicore" where
  "setWorker i w s = s\<lparr>workers := (workers s)[i := w]\<rparr>"

definition workerStep :: "nat \<Rightarrow> multicore \<Rightarrow> error + multicore" where
  "workerStep i s =
     (if i < length (workers s) then
        (case workers s ! i of
           Claiming \<Rightarrow>
             (let currentBlock = nextBlock s;
                  s' = s\<lparr>nextBlock := nextBlock s + 1\<rparr>
              in if currentBlock < 100
                 then bindE (blockPixels (fractal s) currentBlock)
                        (\<lambda>ps. Inr (setWorker i (Computing ps) s'))
                 else Inr (setWorker i Finished s'))
         | Computing [] \<Rightarrow>
             Inr (setWorker i Claiming (s\<lparr>doneBlock := doneBlock s + 1\<rparr>))
         | Computing ((x, y) # ps) \<Rightarrow>
             bindE (computePixel (fractal s) x y)
               (\<lambda>m'. Inr (setWorker i (Computing ps) (s\<lparr>fractal := m'\<rparr>)))
         | Finished \<Rightarrow> Inr s)
      else Inr s)"

fun runSchedule :: "nat list \<Rightarrow> multicore \<Rightarrow> error + multicore" where
  "runSchedule [] s = Inr s"
| "runSchedule (i # sched) s = bindE (workerStep i s) (runSchedule sched)"

definition startThreads :: "nat \<Rightarrow> Mandlebrot \<Rightarrow> multicore" where
  "startThreads nThreads m =
     \<lparr>fractal = m, nextBlock = 0, doneBlock = 0, workers = replicate nThreads Claiming\<rparr>"

definition joined :: "multicore \<Rightarrow> bool" where
  "joined s \<longleftrightarrow> list_all (\<lambda>w. w = Finished) (workers s)"

text \<open>
  \<^verbatim>\<open>computeMultiCore\<close> with \<open>nThreads\<close> threads under a schedule: \<open>None\<close> when
  the schedule ends before every thread has left its loop (the joins still wait),
  otherwise the failure of a step or the fractal with its image computed.
\<close>

definition computeMultiCore :: "nat \<Rightarrow> nat list \<Rightarrow> Mandlebrot \<Rightarrow> (error + Mandlebrot) option" where
  "computeMultiCore nThreads sched m =
     (case runSchedule sched (startThreads nThreads m) of
        Inl e \<Rightarrow> Some (Inl e)
      | Inr s \<Rightarrow> if joined s then Some (Inr (fractal s)) else None)"

section \<open>The orbit of a pixel and the reference iteration\<close>

text \<open>
  The value of \<^verbatim>\<open>z\<close> after \<open>k\<close> executions of the loop body
  \<^verbatim>\<open>z = step (z,c)\<close>, started at \<^verbatim>\<open>z = c\<close>.
\<close>

definition orbit :: "complex \<Rightarrow> nat \<Rightarrow> complex" where
  "orbit c k = ((\<lambda>z. step z c) ^^ k) c"

text \<open>
  The escape-time iteration as the specification words it.  The point of a pixel is
  \<open>left + (right - left) \<cdot> x / width\<close> and \<open>top + (bottom - top) \<cdot> y / height\<close>;
  \<open>z\<close> starts at \<open>c\<close> and is replaced by \<open>z\<^sup>2 + c\<close>, the iterations being counted,
  until \<open>|z|\<^sup>2 \<ge> stopNorm\<close> or the count has reached \<open>maxIterations\<close>.
\<close>

definition spec_point :: "Mandlebrot \<Rightarrow> int \<Rightarrow> int \<Rightarrow> complex" where
  "spec_point m x y =
     Complex (left m + (right m - left m) * of_int x / of_int (width (image_m m)))
             (top_m m + (bottom m - top_m m) * of_int y / of_int (height (image_m m)))"

function spec_iterate :: "real \<Rightarrow> int \<Rightarrow> complex \<Rightarrow> complex \<Rightarrow> int \<Rightarrow> complex \<times> int" where
  "spec_iterate stopN maxIt c z n =
     (if (cmod z)\<^sup>2 \<ge> stopN \<or> n \<ge> maxIt then (z, n)
      else spec_iterate stopN maxIt c (z\<^sup>2 + c) (n + 1))"
  by pat_completeness auto
termination
  by (relation "measure (\<lambda>(stopN, maxIt, c, z, n). nat (maxIt - n))") auto

declare spec_iterate.simps [simp del]

text \<open>
  The edge \<open>k \<cdot> w / 100\<close> of a column block of an image \<open>w\<close> columns wide, with the
  division of unbounded integers: block \<open>k\<close> spans the columns from edge \<open>k\<close> up to,
  and without, edge \<open>k + 1\<close>.
\<close>

definition blockEdge :: "int \<Rightarrow> int \<Rightarrow> int" where
  "blockEdge w k = k * w div 100"


definition blendColors :: "Color \<Rightarrow> Color \<Rightarrow> real \<Rightarrow> real \<times> real \<times> real" where
  "blendColors color1 color2 fC =
     (blend (red color1) (red color2) (mixWeight fC),
      blend (green color1) (green color2) (mixWeight fC),
      blend (blue color1) (blue color2) (mixWeight fC))"




text \<open>
  Notions for the comparison of the two renderings.  \<open>withData m d\<close> is the fractal
  \<open>m\<close> with the cells \<open>d\<close> in its image.  \<open>writtenColor m x y\<close> is the colour that
  \<^verbatim>\<open>computePixel\<close> assigns to \<^verbatim>\<open>image.data[y][x]\<close>, or its failure.
  \<open>painted m d S\<close> are the cells \<open>d\<close> after the pixels of \<open>S\<close> have been assigned.
\<close>

definition withData :: "Mandlebrot \<Rightarrow> (int \<times> int \<Rightarrow> Color option) \<Rightarrow> Mandlebrot" where
  "withData m d = m\<lparr>image_m := (image_m m)\<lparr>data := d\<rparr>\<rparr>"

definition writtenColor :: "Mandlebrot \<Rightarrow> int \<Rightarrow> int \<Rightarrow> error + Color" where
  "writtenColor m x y =
     bindE (loopExit m x y) (\<lambda>(z, iN).
       if \<not> allocated (image_m m) x y then Inl IndexOutOfRange else chooseColor m z iN)"

definition painted ::
  "Mandlebrot \<Rightarrow> (int \<times> int \<Rightarrow> Color option) \<Rightarrow> (int \<times> int) set \<Rightarrow> int \<times> int \<Rightarrow> Color option" where
  "painted m d S =
     (\<lambda>(y, x). if (x, y) \<in> S
        then (case writtenColor m x y of Inr col \<Rightarrow> Some col | Inl e \<Rightarrow> d (y, x))
        else d (y, x))"

text \<open>
  The pixels of block \<open>k\<close>, the pixels of the blocks taken when the counter
  \<^verbatim>\<open>nextBlock\<close> has the value \<open>nb\<close>, and the pixels that the threads inside
  \<^verbatim>\<open>computeArea\<close> still have to compute.
\<close>

definition blockSet :: "Mandlebrot \<Rightarrow> int \<Rightarrow> (int \<times> int) set" where
  "blockSet m k =
     {(x, y). blockEdge (width (image_m m)) k \<le> x \<and> x < blockEdge (width (image_m m)) (k + 1) \<and>
              0 \<le> y \<and> y < height (image_m m)}"

definition claimed :: "Mandlebrot \<Rightarrow> int \<Rightarrow> (int \<times> int) set" where
  "claimed m nb = {p. \<exists>k. 0 \<le> k \<and> k < nb \<and> k < 100 \<and> p \<in> blockSet m k}"

definition pendingOf :: "worker \<Rightarrow> (int \<times> int) set" where
  "pendingOf w = (case w of Computing ps \<Rightarrow> set ps | _ \<Rightarrow> {})"

definition pending :: "worker list \<Rightarrow> (int \<times> int) set" where
  "pending ws = (\<Union>w \<in> set ws. pendingOf w)"

text \<open>
  The invariant of the threads while \<open>100 \<cdot> width\<close> fits in \<^verbatim>\<open>int\<close>: the image holds
  the colours of a set \<open>D\<close> of pixels of the blocks taken, every pixel of a block taken is
  in \<open>D\<close> or still to be computed by a thread, and a thread has left its loop only after
  the hundred blocks were taken.  The second invariant is that of an image too wide for
  the product \<open>100 \<cdot> width\<close>: no thread ever leaves its loop.
\<close>

definition mc_inv :: "Mandlebrot \<Rightarrow> nat \<Rightarrow> multicore \<Rightarrow> bool" where
  "mc_inv m n s \<longleftrightarrow>
     length (workers s) = n \<and> 0 \<le> nextBlock s \<and>
     (Finished \<in> set (workers s) \<longrightarrow> 100 \<le> nextBlock s) \<and>
     (\<exists>D. fractal s = withData m (painted m (data (image_m m)) D) \<and>
          (\<forall>p \<in> D. \<exists>col. writtenColor m (fst p) (snd p) = Inr col) \<and>
          D \<subseteq> claimed m (nextBlock s) \<and>
          claimed m (nextBlock s) \<subseteq> D \<union> pending (workers s) \<and>
          pending (workers s) \<subseteq> claimed m (nextBlock s))"

definition overflow_inv :: "int \<Rightarrow> nat \<Rightarrow> multicore \<Rightarrow> bool" where
  "overflow_inv w n s \<longleftrightarrow>
     length (workers s) = n \<and> Finished \<notin> set (workers s) \<and> nextBlock s \<le> 99 \<and>
     width (image_m (fractal s)) = w"

text \<open>
  The pixel that a step of a thread computes, if it computes one, and the pixels computed
  along a schedule, in their order.  The third invariant says that the pixels the threads
  still have to compute are different from one another and from the pixels of a set
  \<open>Dn\<close>, those already computed.
\<close>

definition stepPixel :: "nat \<Rightarrow> multicore \<Rightarrow> (int \<times> int) list" where
  "stepPixel i s =
     (if i < length (workers s) then
        (case workers s ! i of Computing (p # ps) \<Rightarrow> [p] | _ \<Rightarrow> [])
      else [])"

definition race_inv :: "Mandlebrot \<Rightarrow> (int \<times> int) set \<Rightarrow> multicore \<Rightarrow> bool" where
  "race_inv m Dn s \<longleftrightarrow>
     0 \<le> nextBlock s \<and> (\<exists>d. fractal s = withData m d) \<and>
     Dn \<subseteq> claimed m (nextBlock s) \<and> pending (workers s) \<subseteq> claimed m (nextBlock s) \<and>
     (\<forall>i < length (workers s). \<forall>ps. workers s ! i = Computing ps \<longrightarrow>
        distinct ps \<and> set ps \<inter> Dn = {}) \<and>
     (\<forall>i < length (workers s). \<forall>j < length (workers s). i \<noteq> j \<longrightarrow>
        pendingOf (workers s ! i) \<inter> pendingOf (workers s ! j) = {})"

fun computedPixels :: "nat list \<Rightarrow> multicore \<Rightarrow> (int \<times> int) list" where
  "computedPixels [] s = []"
| "computedPixels (i # sched) s =
     (case workerStep i s of
        Inl e \<Rightarrow> []
      | Inr s' \<Rightarrow> stepPixel i s @ computedPixels sched s')"

section \<open>Basic facts\<close>

lemma bindE_Inr [simp]: "bindE (Inr v) f = f v"
  by (simp add: bindE_def)

lemma bindE_Inl [simp]: "bindE (Inl e) f = Inl e"
  by (simp add: bindE_def)

lemma bindE_eq_Inr: "bindE r f = Inr y \<longleftrightarrow> (\<exists>v. r = Inr v \<and> f v = Inr y)"
  by (cases r) simp_all

lemma orbit_0 [simp]: "orbit c 0 = c"
  by (simp add: orbit_def)

lemma orbit_Suc [simp]: "orbit c (Suc k) = step (orbit c k) c"
  by (simp add: orbit_def)

lemma std_norm_cmod: "std_norm z = (cmod z)\<^sup>2"
  by (simp add: std_norm_def cmod_power2 flip: power2_eq_square)

lemma step_power2: "step z c = z\<^sup>2 + c"
  by (simp add: step_def power2_eq_square)

section \<open>The loop of computePixel\<close>

lemma escapeLoop_escaped:
  "\<not> std_norm z < stopNorm m \<Longrightarrow> escapeLoop m c z iN = Inr (z, iN)"
  by (simp add: escapeLoop.simps [of m c z iN])

lemma escapeLoop_count:
  "std_norm z < stopNorm m \<Longrightarrow> maxIterations m \<le> iN \<Longrightarrow> iN \<noteq> INT_MAX \<Longrightarrow>
   escapeLoop m c z iN = Inr (z, iN + 1)"
  by (simp add: escapeLoop.simps [of m c z iN])

lemma escapeLoop_step:
  "std_norm z < stopNorm m \<Longrightarrow> iN < maxIterations m \<Longrightarrow> iN \<noteq> INT_MAX \<Longrightarrow>
   escapeLoop m c z iN = escapeLoop m c (step z c) (iN + 1)"
  by (simp add: escapeLoop.simps [of m c z iN])

text \<open>While the orbit stays below the threshold and the cap is not reached, the loop goes on.\<close>

lemma escapeLoop_inside_run:
  "\<lbrakk>\<And>i. k \<le> i \<Longrightarrow> i < k + j \<Longrightarrow> std_norm (orbit c i) < stopNorm m;
    int (k + j) \<le> maxIterations m; maxIterations m \<le> INT_MAX\<rbrakk> \<Longrightarrow>
   escapeLoop m c (orbit c k) (int k) = escapeLoop m c (orbit c (k + j)) (int (k + j))"
proof (induction j arbitrary: k)
  case 0
  then show ?case by simp
next
  case (Suc j)
  have inside: "std_norm (orbit c k) < stopNorm m"
    using Suc.prems(1) [of k] by simp
  have below: "int k < maxIterations m" "int k \<noteq> INT_MAX"
    using Suc.prems(2,3) by linarith+
  have "escapeLoop m c (orbit c k) (int k) = escapeLoop m c (orbit c (Suc k)) (int (Suc k))"
    using escapeLoop_step [OF inside below] by (simp add: add.commute)
  also have "\<dots> = escapeLoop m c (orbit c (Suc k + j)) (int (Suc k + j))"
  proof (rule Suc.IH)
    fix i assume "Suc k \<le> i" "i < Suc k + j"
    then show "std_norm (orbit c i) < stopNorm m"
      using Suc.prems(1) [of i] by simp
  next
    show "int (Suc k + j) \<le> maxIterations m" using Suc.prems(2) by simp
  next
    show "maxIterations m \<le> INT_MAX" by fact
  qed
  finally show ?case by simp
qed

lemma loopExit_from_start:
  "\<lbrakk>\<And>i. i < n \<Longrightarrow> std_norm (orbit (pixelPoint m x y) i) < stopNorm m;
    int n \<le> maxIterations m; maxIterations m \<le> INT_MAX\<rbrakk> \<Longrightarrow>
   loopExit m x y = escapeLoop m (pixelPoint m x y) (orbit (pixelPoint m x y) n) (int n)"
  using escapeLoop_inside_run [of 0 n "pixelPoint m x y" m]
  by (simp add: loopExit_def)

text \<open>The loop ends, and the exit values are bounded.\<close>

lemma escapeLoop_total:
  "maxIterations m < INT_MAX \<Longrightarrow> iN \<le> maxIterations m \<Longrightarrow>
   \<exists>z' iN'. escapeLoop m c z iN = Inr (z', iN') \<and> iN \<le> iN' \<and> iN' \<le> maxIterations m + 1 \<and>
     (std_norm z' < stopNorm m \<longleftrightarrow> iN' = maxIterations m + 1) \<and>
     z' = ((\<lambda>z. step z c) ^^ nat (min iN' (maxIterations m) - iN)) z"
proof (induction m c z iN rule: escapeLoop.induct)
  case (1 m c z iN)
  show ?case
  proof (cases "std_norm z < stopNorm m")
    case False
    then show ?thesis
      using 1(2,3) by (simp add: escapeLoop_escaped)
  next
    case inside: True
    show ?thesis
    proof (cases "iN < maxIterations m")
      case False
      with 1(2,3) have eq: "iN = maxIterations m" by simp
      then show ?thesis
        using inside 1(2) by (simp add: escapeLoop_count)
    next
      case True
      then have ne: "iN \<noteq> INT_MAX" using 1(2) by simp
      from 1(1) [OF inside ne True 1(2)] True
      obtain z' iN' where
        r: "escapeLoop m c (step z c) (iN + 1) = Inr (z', iN')" and
        b: "iN + 1 \<le> iN'" "iN' \<le> maxIterations m + 1"
           "std_norm z' < stopNorm m \<longleftrightarrow> iN' = maxIterations m + 1" and
        z: "z' = ((\<lambda>z. step z c) ^^ nat (min iN' (maxIterations m) - (iN + 1))) (step z c)"
        by auto
      have "nat (min iN' (maxIterations m) - iN) = Suc (nat (min iN' (maxIterations m) - (iN + 1)))"
        using b True by simp
      moreover have "((\<lambda>z. step z c) ^^ Suc N) z = ((\<lambda>z. step z c) ^^ N) (step z c)" for N
        by (simp only: funpow_Suc_right o_apply)
      ultimately have "z' = ((\<lambda>z. step z c) ^^ nat (min iN' (maxIterations m) - iN)) z"
        using z by (simp only:)
      then show ?thesis
        using r b by (simp add: escapeLoop_step [OF inside True ne])
    qed
  qed
qed

text \<open>The loop computes the reference iteration; its counter is one more at an exit by the cap.\<close>

lemma escapeLoop_refines:
  "maxIterations m < INT_MAX \<Longrightarrow> iN < INT_MAX \<Longrightarrow>
   escapeLoop m c z iN =
     (case spec_iterate (stopNorm m) (maxIterations m) c z iN of
        (z', n) \<Rightarrow> Inr (z', if (cmod z')\<^sup>2 \<ge> stopNorm m then n else n + 1))"
proof (induction m c z iN rule: escapeLoop.induct)
  case (1 m c z iN)
  show ?case
  proof (cases "std_norm z < stopNorm m")
    case False
    then show ?thesis
      by (simp add: escapeLoop.simps [of m c z iN] spec_iterate.simps [of _ _ c z iN] std_norm_cmod)
  next
    case inside: True
    show ?thesis
    proof (cases "iN < maxIterations m")
      case True
      with inside 1 show ?thesis
        by (simp add: escapeLoop.simps [of m c z iN] spec_iterate.simps [of _ _ c z iN]
            std_norm_cmod step_power2)
    next
      case False
      with inside 1 show ?thesis
        by (simp add: escapeLoop.simps [of m c z iN] spec_iterate.simps [of _ _ c z iN] std_norm_cmod)
    qed
  qed
qed

lemma funpow_step_Suc:
  "((\<lambda>z. step z c) ^^ Suc N) z = ((\<lambda>z. step z c) ^^ N) (step z c)"
  by (simp only: funpow_Suc_right o_apply)

text \<open>Before the exit every value of \<^verbatim>\<open>z\<close> was below the threshold.\<close>

lemma escapeLoop_inside_before:
  "maxIterations m < INT_MAX \<Longrightarrow> iN \<le> maxIterations m \<Longrightarrow>
   escapeLoop m c z iN = Inr (z', iN') \<Longrightarrow> i < nat (min iN' (maxIterations m) - iN) \<Longrightarrow>
   std_norm (((\<lambda>z. step z c) ^^ i) z) < stopNorm m"
proof (induction m c z iN arbitrary: i rule: escapeLoop.induct)
  case (1 m c z iN)
  show ?case
  proof (cases "std_norm z < stopNorm m")
    case False
    then show ?thesis
      using 1(4,5) by (simp add: escapeLoop_escaped)
  next
    case inside: True
    show ?thesis
    proof (cases "iN < maxIterations m")
      case False
      with 1(2,3) have eq: "iN = maxIterations m" by simp
      then show ?thesis
        using inside 1(2,4,5) by (auto simp: escapeLoop_count)
    next
      case True
      then have ne: "iN \<noteq> INT_MAX" using 1(2) by simp
      have r: "escapeLoop m c (step z c) (iN + 1) = Inr (z', iN')"
        using 1(4) by (simp add: escapeLoop_step [OF inside True ne])
      show ?thesis
      proof (cases i)
        case 0
        then show ?thesis using inside by simp
      next
        case (Suc i')
        have "i' < nat (min iN' (maxIterations m) - (iN + 1))"
          using 1(5) Suc by linarith
        from 1(1) [OF inside ne True 1(2) _ r this] True
        have "std_norm (((\<lambda>z. step z c) ^^ i') (step z c)) < stopNorm m" by simp
        then show ?thesis
          unfolding Suc funpow_step_Suc .
      qed
    qed
  qed
qed

text \<open>With a cap below \<^verbatim>\<open>INT_MAX\<close> the loop of every pixel ends.\<close>

lemma loopExit_total:
  assumes cap: "maxIterations m < INT_MAX"
  shows "\<exists>z iN. loopExit m x y = Inr (z, iN)"
proof (cases "0 \<le> maxIterations m")
  case True
  from escapeLoop_total [OF cap True, of "pixelPoint m x y" "pixelPoint m x y"]
  show ?thesis by (auto simp: loopExit_def)
next
  case False
  have "loopExit m x y = Inr (pixelPoint m x y, 0) \<or> loopExit m x y = Inr (pixelPoint m x y, 0 + 1)"
    using escapeLoop_escaped [of "pixelPoint m x y" m "pixelPoint m x y" 0]
      escapeLoop_count [of "pixelPoint m x y" m 0 "pixelPoint m x y"] False
    unfolding loopExit_def by (auto simp: INT_MAX_def)
  then show ?thesis by blast
qed

section \<open>The constructor and the fractal of main\<close>

text \<open>The coefficients the constructor computes: the slope is 1.\<close>

lemma half_of_four: "L \<noteq> 0 \<Longrightarrow> 0.5 * (4 * L) / L = (2::real)"
  by simp

lemma ctor_mSmooth:
  "1 / log 2 (0.5 * log 2 (std_norm (step (Complex 100000 0) 0)) / log 2 100000) = 1"
proof -
  have n: "std_norm (step (Complex 100000 0) 0) = 100000 ^ 4"
    by (simp add: std_norm_def step_def)
  have "log 2 ((100000::real) ^ 4) = real 4 * log 2 100000"
    by (rule log_nat_power) simp
  then have l: "log 2 ((100000::real) ^ 4) = 4 * log 2 100000"
    by (simp only: of_nat_numeral)
  have "(0::real) < log 2 100000"
    by simp
  then have ne: "log 2 100000 \<noteq> (0::real)"
    by (rule less_imp_neq [symmetric])
  have "0.5 * log 2 (std_norm (step (Complex 100000 0) 0)) / log 2 100000 = 2"
    unfolding n l by (rule half_of_four [OF ne])
  then show ?thesis by simp
qed

lemma ctor_fields:
  assumes "Mandlebrot_ctor resolution l t r b = Inr m"
  shows "left m = l" "right m = r" "top_m m = t" "bottom m = b" "maxIterations m = 100"
    "stopNorm m = 400" "mSmooth m = 1" "bSmooth m = log 2 (0.5 * log 2 400)"
    "colorList m = []" "bodyColor m = \<lparr>red = 0, green = 0, blue = 0\<rparr>"
  using assms ctor_mSmooth
  by (auto simp: Mandlebrot_ctor_def bindE_eq_Inr Let_def)

text \<open>The size of the raster of a constructed fractal.\<close>

lemma ctor_raster:
  "Mandlebrot_ctor resolution l t r b = Inr m \<Longrightarrow>
     width (image_m m) = trunc_toward_zero (resolution * (r - l)) \<and>
     height (image_m m) = trunc_toward_zero (resolution * (t - b))"
  by (auto simp: Mandlebrot_ctor_def bindE_eq_Inr double_to_int_def Image_ctor_def Let_def
      split: if_splits)

lemmas ctor_defs = Mandlebrot_ctor_def double_to_int_def trunc_toward_zero_def INT_MAX_def
  INT_MIN_def Image_ctor_def int_mul_def Let_def

lemma mainFractal_ok: "\<exists>m. mainFractal = Inr m"
  by (simp add: mainFractal_def push_back_all_def ctor_defs)

lemma mainFractal_fields:
  assumes "mainFractal = Inr m"
  shows "width (image_m m) = 2200" "height (image_m m) = 1250"
    "left m = - 27 / 10" "right m = 17 / 10" "top_m m = 5 / 4" "bottom m = - 5 / 4"
    "maxIterations m = 100" "stopNorm m = 400" "colorList m = mainColors"
    "bodyColor m = \<lparr>red = 0, green = 0, blue = 0\<rparr>"
  using assms
  by (auto simp: mainFractal_def push_back_all_def ctor_defs)

lemma orbit_zero: "orbit 0 k = 0"
  by (induction k) (simp_all add: step_def)

lemma std_norm_zero: "std_norm 0 = 0"
  by (simp add: std_norm_def)

text \<open>Pixel \<open>(1350, 625)\<close> of the image of \<^verbatim>\<open>main\<close> is the origin of the plane.\<close>

lemma mainFractal_centre:
  "mainFractal = Inr m \<Longrightarrow> pixelPoint m 1350 625 = 0"
  by (simp add: pixelPoint_def Complex_eq_0 mainFractal_fields)

lemma mainFractal_centre_inside:
  "mainFractal = Inr m \<Longrightarrow> std_norm (orbit (pixelPoint m 1350 625) k) < stopNorm m"
  by (simp add: mainFractal_centre orbit_zero std_norm_zero mainFractal_fields)

lemma mainFractal_centre_loop:
  assumes "mainFractal = Inr m"
  shows "loopExit m 1350 625 = Inr (0, 101)"
proof -
  have f: "maxIterations m = 100" "stopNorm m = 400"
    using mainFractal_fields [OF assms] by auto
  have c: "pixelPoint m 1350 625 = 0"
    by (rule mainFractal_centre [OF assms])
  have "loopExit m 1350 625 = escapeLoop m 0 (orbit 0 100) (int 100)"
    using loopExit_from_start [of 100 m 1350 625]
    by (simp add: c f orbit_zero std_norm_zero INT_MAX_def)
  also have "\<dots> = Inr (0, 101)"
    using escapeLoop_count [of 0 m 100 0]
    by (simp add: f orbit_zero std_norm_zero INT_MAX_def)
  finally show ?thesis .
qed

lemma push_back_all_fields [simp]:
  "image_m (push_back_all cs m) = image_m m" "colorList (push_back_all cs m) = colorList m @ cs"
  "bodyColor (push_back_all cs m) = bodyColor m" "left (push_back_all cs m) = left m"
  "right (push_back_all cs m) = right m" "top_m (push_back_all cs m) = top_m m"
  "bottom (push_back_all cs m) = bottom m" "maxIterations (push_back_all cs m) = maxIterations m"
  "stopNorm (push_back_all cs m) = stopNorm m" "mSmooth (push_back_all cs m) = mSmooth m"
  "bSmooth (push_back_all cs m) = bSmooth m"
  by (simp_all add: push_back_all_def)

lemma mainFractal_smooth:
  assumes "mainFractal = Inr m"
  shows "mSmooth m = 1" "bSmooth m = log 2 (0.5 * log 2 400)"
proof -
  from assms obtain m0 where m0: "Mandlebrot_ctor 500 (- 27 / 10) (5 / 4) (17 / 10) (- 5 / 4) = Inr m0"
    and m: "m = push_back_all mainColors m0"
    by (auto simp: mainFractal_def bindE_eq_Inr)
  show "mSmooth m = 1" "bSmooth m = log 2 (0.5 * log 2 400)"
    using ctor_fields(7,8) [OF m0] by (simp_all add: m)
qed

section \<open>Claim C9: the size of the raster\<close>






section \<open>Claim C8: a raster without pixels\<close>

text \<open>
  Neither constructor checks the size.  With resolution \<open>0.5\<close> and the rectangle from
  \<open>(0, 4)\<close> to \<open>(1, 0)\<close> the width is 0 and the height 2: the two rows are allocated
  and the construction succeeds.
\<close>

theorem C8_zero_size_counterexample:
  "rasterSize (Mandlebrot_ctor (1 / 2) 0 4 1 0) = Inr (0, 2)"
  by (simp add: rasterSize_def ctor_defs)

text \<open>
  Claim C8, amended.  When the two products convert to a width of zero and a height that
  is not negative, or to a height of zero, the construction does not fail: it yields a
  fractal whose raster has that width and height and no pixel.
\<close>

theorem constructor_accepts_empty_raster:
  "\<lbrakk>double_to_int (resolution * (r - l)) = Inr w; double_to_int (resolution * (t - b)) = Inr h;
    (w = 0 \<and> 0 \<le> h) \<or> h = 0\<rbrakk> \<Longrightarrow>
   \<exists>m. Mandlebrot_ctor resolution l t r b = Inr m \<and> width (image_m m) = w \<and>
       height (image_m m) = h \<and> data (image_m m) = (\<lambda>_. None)"
  by (auto simp: Mandlebrot_ctor_def Image_ctor_def int_mul_def INT_MIN_def INT_MAX_def Let_def)

theorem constructor_accepts_empty_raster_witness:
  "double_to_int (1 / 2 * (1 - 0)) = Inr 0 \<and> double_to_int (1 / 2 * (4 - 0)) = Inr 2 \<and>
   (\<exists>m. Mandlebrot_ctor (1 / 2) 0 4 1 0 = Inr m \<and> width (image_m m) = 0 \<and>
        height (image_m m) = 2 \<and> data (image_m m) = (\<lambda>_. None))"
proof -
  have w: "double_to_int (1 / 2 * (1 - 0)) = Inr 0"
    by (simp add: double_to_int_def trunc_toward_zero_def INT_MAX_def INT_MIN_def)
  have h: "double_to_int (1 / 2 * (4 - 0)) = Inr 2"
    by (simp add: double_to_int_def trunc_toward_zero_def INT_MAX_def INT_MIN_def)
  show ?thesis
    using constructor_accepts_empty_raster [OF w h] w h by simp
qed

section \<open>Claim C3: the counter at the exit of the loop\<close>

text \<open>
  For the fractal of \<^verbatim>\<open>main\<close>, whose \<^verbatim>\<open>maxIterations\<close> is 100, the loop leaves
  pixel \<open>(1350, 625)\<close> with \<^verbatim>\<open>iN = 101\<close>: the failing test \<^verbatim>\<open>iN++ < maxIterations\<close>
  still increments the counter.
\<close>

theorem C3_iN_exceeds_maxIterations:
  "bindE mainFractal (\<lambda>m. bindE (loopExit m 1350 625) (\<lambda>(z, iN). Inr (iN, maxIterations m)))
     = Inr (101, 100)"
proof -
  obtain m where m: "mainFractal = Inr m"
    using mainFractal_ok by blast
  show ?thesis
    unfolding m by (simp add: mainFractal_centre_loop [OF m] mainFractal_fields [OF m])
qed

text \<open>
  Claim C3, amended.  For a cap \<open>0 \<le> maxIterations < INT_MAX\<close> and every pixel of the
  raster, the loop ends; at its exit \<^verbatim>\<open>iN\<close> is in the range \<open>[0, maxIterations + 1]\<close>, it is
  \<open>maxIterations + 1\<close> exactly when the loop ended by the cap with \<open>|z|\<^sup>2\<close> below
  \<^verbatim>\<open>stopNorm\<close>, and the step was applied \<open>min iN maxIterations\<close> times, a number in
  \<open>[0, maxIterations]\<close>.
\<close>

theorem loop_exit_count_bounds:
  assumes "0 \<le> x" "x < width (image_m m)" "0 \<le> y" "y < height (image_m m)"
    and "0 \<le> maxIterations m" "maxIterations m < INT_MAX"
  shows "\<exists>z iN. loopExit m x y = Inr (z, iN) \<and> 0 \<le> iN \<and> iN \<le> maxIterations m + 1 \<and>
           (iN = maxIterations m + 1 \<longleftrightarrow> std_norm z < stopNorm m) \<and>
           z = orbit (pixelPoint m x y) (nat (min iN (maxIterations m)))"
  using escapeLoop_total [OF assms(6), of 0 "pixelPoint m x y" "pixelPoint m x y"] assms(5)
  by (auto simp: loopExit_def orbit_def)

theorem loop_exit_count_bounds_witness:
  "\<exists>m. mainFractal = Inr m \<and> 1350 < width (image_m m) \<and> 625 < height (image_m m) \<and>
     0 \<le> maxIterations m \<and> maxIterations m < INT_MAX \<and>
     (\<exists>z iN. loopExit m 1350 625 = Inr (z, iN) \<and> 0 \<le> iN \<and> iN \<le> maxIterations m + 1 \<and>
        (iN = maxIterations m + 1 \<longleftrightarrow> std_norm z < stopNorm m) \<and>
        z = orbit (pixelPoint m 1350 625) (nat (min iN (maxIterations m))))"
proof -
  obtain m where m: "mainFractal = Inr m"
    using mainFractal_ok by blast
  have m2: "maxIterations m = 100"
    by (rule mainFractal_fields [OF m])
  have r: "(0::int) \<le> 1350" "1350 < width (image_m m)" "(0::int) \<le> 625" "625 < height (image_m m)"
    by (simp_all add: mainFractal_fields [OF m])
  have h: "0 \<le> maxIterations m" "maxIterations m < INT_MAX"
    using m2 by (simp_all add: INT_MAX_def)
  show ?thesis
    using loop_exit_count_bounds [OF r h] m r h by blast
qed

section \<open>Claim C6: interior pixels\<close>

lemma in_raster_allocated:
  "\<lbrakk>0 \<le> x; x < width img; 0 \<le> y; y < height img\<rbrakk> \<Longrightarrow> allocated img x y"
  by (simp add: allocated_def)

lemma computePixel_body:
  "\<lbrakk>loopExit m x y = Inr (z, iN); maxIterations m \<le> iN; allocated (image_m m) x y\<rbrakk> \<Longrightarrow>
   computePixel m x y = Inr (setPixel m x y (bodyColor m))"
  by (simp add: computePixel_def chooseColor_def)

lemma setPixel_data [simp]:
  "data (image_m (setPixel m x y col)) = (data (image_m m))((y, x) \<mapsto> col)"
  by (simp add: setPixel_def)

text \<open>An orbit that stays inside through the cap leaves the loop by the count.\<close>

lemma loopExit_interior:
  assumes cap: "maxIterations m < INT_MAX"
    and inside: "\<And>k. int k \<le> maxIterations m \<Longrightarrow> std_norm (orbit (pixelPoint m x y) k) < stopNorm m"
  shows "\<exists>z iN. loopExit m x y = Inr (z, iN) \<and> maxIterations m \<le> iN"
proof (cases "0 \<le> maxIterations m")
  case True
  define n where "n = nat (maxIterations m)"
  have n: "int n = maxIterations m" using True by (simp add: n_def)
  have "loopExit m x y = escapeLoop m (pixelPoint m x y) (orbit (pixelPoint m x y) n) (int n)"
    using loopExit_from_start [of n m x y] inside n cap by simp
  also have "\<dots> = Inr (orbit (pixelPoint m x y) n, int n + 1)"
    using escapeLoop_count [of "orbit (pixelPoint m x y) n" m "int n"] inside [of n] n cap by simp
  finally show ?thesis using n by simp
next
  case False
  show ?thesis
  proof (cases "std_norm (pixelPoint m x y) < stopNorm m")
    case True
    then have "loopExit m x y = Inr (pixelPoint m x y, 0 + 1)"
      unfolding loopExit_def using False by (intro escapeLoop_count) (simp_all add: INT_MAX_def)
    then show ?thesis using False by simp
  next
    case False
    then have "loopExit m x y = Inr (pixelPoint m x y, 0)"
      unfolding loopExit_def by (rule escapeLoop_escaped)
    then show ?thesis using \<open>\<not> 0 \<le> maxIterations m\<close> by simp
  qed
qed

text \<open>
  Claim C6.  A pixel of the raster whose orbit stays below \<^verbatim>\<open>stopNorm\<close> through
  \<^verbatim>\<open>maxIterations\<close> applications of the step, so that the count reaches the cap
  without an escape, is assigned exactly the body colour by \<^verbatim>\<open>computePixel\<close>.  The cap
  is below \<^verbatim>\<open>INT_MAX\<close>, as the constructor's 100 is, so that the counter does not
  overflow.
\<close>

theorem interior_pixel_gets_bodyColor:
  assumes "0 \<le> x" "x < width (image_m m)" "0 \<le> y" "y < height (image_m m)"
    and "maxIterations m < INT_MAX"
    and "\<forall>k. int k \<le> maxIterations m \<longrightarrow> std_norm (orbit (pixelPoint m x y) k) < stopNorm m"
  shows "\<exists>m'. computePixel m x y = Inr m' \<and> data (image_m m') (y, x) = Some (bodyColor m) \<and>
           m' = setPixel m x y (bodyColor m)"
proof -
  obtain z iN where "loopExit m x y = Inr (z, iN)" "maxIterations m \<le> iN"
    using loopExit_interior [of m x y] assms(5,6) by blast
  then have "computePixel m x y = Inr (setPixel m x y (bodyColor m))"
    using in_raster_allocated [OF assms(1-4)] by (rule computePixel_body)
  then show ?thesis by simp
qed

text \<open>The theorem at pixel \<open>(1350, 625)\<close> of the image of \<^verbatim>\<open>main\<close>, the origin of the plane.\<close>

theorem interior_pixel_gets_bodyColor_witness:
  "\<exists>m. mainFractal = Inr m \<and> 1350 < width (image_m m) \<and> 625 < height (image_m m) \<and>
     maxIterations m < INT_MAX \<and>
     (\<forall>k. std_norm (orbit (pixelPoint m 1350 625) k) < stopNorm m) \<and>
     computePixel m 1350 625 = Inr (setPixel m 1350 625 (bodyColor m)) \<and>
     data (image_m (setPixel m 1350 625 (bodyColor m))) (625, 1350) = Some (bodyColor m)"
proof -
  obtain m where m: "mainFractal = Inr m"
    using mainFractal_ok by blast
  have r: "(0::int) \<le> 1350" "1350 < width (image_m m)" "(0::int) \<le> 625" "625 < height (image_m m)"
    and c: "maxIterations m < INT_MAX"
    by (simp_all add: mainFractal_fields [OF m] INT_MAX_def)
  have i: "\<forall>k. int k \<le> maxIterations m \<longrightarrow>
             std_norm (orbit (pixelPoint m 1350 625) k) < stopNorm m"
    by (simp add: mainFractal_centre_inside [OF m])
  show ?thesis
    using interior_pixel_gets_bodyColor [OF r c i] m r c mainFractal_centre_inside [OF m]
    by auto
qed

section \<open>Claim C10: an escape at the cap\<close>

lemma loopExit_gradient_branch:
  assumes cap: "maxIterations m < INT_MAX"
    and exit: "loopExit m x y = Inr (z, iN)" and lt: "iN < maxIterations m"
  shows "\<exists>n. int n = iN \<and> z = orbit (pixelPoint m x y) n \<and>
           \<not> std_norm (orbit (pixelPoint m x y) n) < stopNorm m \<and>
           (\<forall>k<n. std_norm (orbit (pixelPoint m x y) k) < stopNorm m)"
proof (cases "0 \<le> maxIterations m")
  case True
  let ?c = "pixelPoint m x y"
  from escapeLoop_total [OF cap True, of ?c ?c] exit
  have b: "0 \<le> iN" "(std_norm z < stopNorm m) = (iN = maxIterations m + 1)"
    "z = ((\<lambda>z. step z ?c) ^^ nat (min iN (maxIterations m) - 0)) ?c"
    by (auto simp: loopExit_def)
  have mn: "min iN (maxIterations m) = iN" using lt by simp
  have before: "std_norm (orbit ?c k) < stopNorm m" if "k < nat iN" for k
    using escapeLoop_inside_before [OF cap True, of ?c ?c z iN k] exit that mn
    by (simp add: loopExit_def orbit_def)
  show ?thesis
    using b lt mn before by (intro exI [of _ "nat iN"]) (auto simp: orbit_def)
next
  case False
  have "loopExit m x y = Inr (pixelPoint m x y, 0) \<or> loopExit m x y = Inr (pixelPoint m x y, 0 + 1)"
    using escapeLoop_escaped [of "pixelPoint m x y" m "pixelPoint m x y" 0]
      escapeLoop_count [of "pixelPoint m x y" m 0 "pixelPoint m x y"] False
    unfolding loopExit_def by (auto simp: INT_MAX_def)
  then show ?thesis using exit lt False by auto
qed

lemma loopExit_escape_at:
  assumes cap: "maxIterations m \<le> INT_MAX" and n: "int n \<le> maxIterations m"
    and before: "\<forall>k<n. std_norm (orbit (pixelPoint m x y) k) < stopNorm m"
    and esc: "\<not> std_norm (orbit (pixelPoint m x y) n) < stopNorm m"
  shows "loopExit m x y = Inr (orbit (pixelPoint m x y) n, int n)"
  using loopExit_from_start [of n m x y] before n cap escapeLoop_escaped [OF esc]
  by simp

text \<open>The assignment of \<^verbatim>\<open>computePixel\<close> after the loop.\<close>

lemma computePixel_chosen:
  "\<lbrakk>loopExit m x y = Inr (z, iN); allocated (image_m m) x y\<rbrakk> \<Longrightarrow>
   computePixel m x y = bindE (chooseColor m z iN) (\<lambda>col. Inr (setPixel m x y col))"
  by (simp add: computePixel_def)

lemma computePixel_gradient:
  "\<lbrakk>loopExit m x y = Inr (z, iN); iN < maxIterations m; allocated (image_m m) x y\<rbrakk> \<Longrightarrow>
   computePixel m x y = bindE (gradientColor m z iN) (\<lambda>col. Inr (setPixel m x y col))"
  by (simp add: computePixel_def chooseColor_def)

text \<open>
  Claim C10.  For a pixel of the raster whose orbit first reaches \<^verbatim>\<open>stopNorm\<close> after
  exactly \<^verbatim>\<open>maxIterations\<close> applications of the step, the loop ends by the escape
  test with the counter equal to \<^verbatim>\<open>maxIterations\<close>, and \<^verbatim>\<open>computePixel\<close>
  assigns the body colour: the cell of the pixel holds it afterwards.  A pixel whose
  orbit first reaches \<^verbatim>\<open>stopNorm\<close> after fewer than \<^verbatim>\<open>maxIterations\<close>
  applications is assigned the colour of the gradient for its exit values, and every
  other pixel is assigned the body colour.  The cap is below \<^verbatim>\<open>INT_MAX\<close>, so that the
  counter does not overflow.
\<close>

theorem escape_at_cap_gets_bodyColor:
  assumes "0 \<le> x" "x < width (image_m m)" "0 \<le> y" "y < height (image_m m)"
    and "maxIterations m < INT_MAX"
  shows "(\<forall>n. int n = maxIterations m \<and>
            (\<forall>k<n. std_norm (orbit (pixelPoint m x y) k) < stopNorm m) \<and>
            \<not> std_norm (orbit (pixelPoint m x y) n) < stopNorm m \<longrightarrow>
            loopExit m x y = Inr (orbit (pixelPoint m x y) n, maxIterations m) \<and>
            (\<exists>m'. computePixel m x y = Inr m' \<and> data (image_m m') (y, x) = Some (bodyColor m) \<and>
               m' = setPixel m x y (bodyColor m))) \<and>
         (\<forall>n. int n < maxIterations m \<and>
            (\<forall>k<n. std_norm (orbit (pixelPoint m x y) k) < stopNorm m) \<and>
            \<not> std_norm (orbit (pixelPoint m x y) n) < stopNorm m \<longrightarrow>
            loopExit m x y = Inr (orbit (pixelPoint m x y) n, int n) \<and>
            computePixel m x y =
              bindE (gradientColor m (orbit (pixelPoint m x y) n) (int n))
                (\<lambda>col. Inr (setPixel m x y col))) \<and>
         ((\<nexists>n. int n < maxIterations m \<and>
            (\<forall>k<n. std_norm (orbit (pixelPoint m x y) k) < stopNorm m) \<and>
            \<not> std_norm (orbit (pixelPoint m x y) n) < stopNorm m) \<longrightarrow>
            (\<exists>m'. computePixel m x y = Inr m' \<and> data (image_m m') (y, x) = Some (bodyColor m) \<and>
               m' = setPixel m x y (bodyColor m)))"
proof (intro conjI allI impI)
  fix n
  assume h: "int n = maxIterations m \<and>
            (\<forall>k<n. std_norm (orbit (pixelPoint m x y) k) < stopNorm m) \<and>
            \<not> std_norm (orbit (pixelPoint m x y) n) < stopNorm m"
  then have e: "loopExit m x y = Inr (orbit (pixelPoint m x y) n, int n)"
    using loopExit_escape_at [of m n x y] assms(5) by simp
  then show "loopExit m x y = Inr (orbit (pixelPoint m x y) n, maxIterations m)"
    using h by simp
  have "computePixel m x y = Inr (setPixel m x y (bodyColor m))"
    using computePixel_body [OF e _ in_raster_allocated [OF assms(1-4)]] h by simp
  then show "\<exists>m'. computePixel m x y = Inr m' \<and> data (image_m m') (y, x) = Some (bodyColor m) \<and>
               m' = setPixel m x y (bodyColor m)"
    by simp
next
  fix n
  assume h: "int n < maxIterations m \<and>
            (\<forall>k<n. std_norm (orbit (pixelPoint m x y) k) < stopNorm m) \<and>
            \<not> std_norm (orbit (pixelPoint m x y) n) < stopNorm m"
  then show e: "loopExit m x y = Inr (orbit (pixelPoint m x y) n, int n)"
    using loopExit_escape_at [of m n x y] assms(5) by simp
  show "computePixel m x y =
          bindE (gradientColor m (orbit (pixelPoint m x y) n) (int n))
            (\<lambda>col. Inr (setPixel m x y col))"
    using e h in_raster_allocated [OF assms(1-4)] by (intro computePixel_gradient) simp_all
next
  assume none: "\<nexists>n. int n < maxIterations m \<and>
            (\<forall>k<n. std_norm (orbit (pixelPoint m x y) k) < stopNorm m) \<and>
            \<not> std_norm (orbit (pixelPoint m x y) n) < stopNorm m"
  obtain z iN where e: "loopExit m x y = Inr (z, iN)"
    using loopExit_total [OF assms(5)] by blast
  have "\<not> iN < maxIterations m"
  proof
    assume lt: "iN < maxIterations m"
    from loopExit_gradient_branch [OF assms(5) e lt]
    obtain n where "int n = iN" "\<not> std_norm (orbit (pixelPoint m x y) n) < stopNorm m"
      "\<forall>k<n. std_norm (orbit (pixelPoint m x y) k) < stopNorm m"
      by blast
    then show False using none lt by blast
  qed
  then have "computePixel m x y = Inr (setPixel m x y (bodyColor m))"
    using computePixel_body [OF e _ in_raster_allocated [OF assms(1-4)]] by simp
  then show "\<exists>m'. computePixel m x y = Inr m' \<and> data (image_m m') (y, x) = Some (bodyColor m) \<and>
               m' = setPixel m x y (bodyColor m)"
    by simp
qed

text \<open>
  The theorem for the rectangle from \<open>(19, 1)\<close> to \<open>(20, 0)\<close> at resolution 1 with
  \<^verbatim>\<open>maxIterations\<close> set to 1: the only pixel is \<open>19 + i\<close>, inside the threshold,
  and one step takes it to \<open>379 + 39i\<close>, outside.
\<close>

lemma near_edge_fields:
  assumes "Mandlebrot_ctor 1 19 1 20 0 = Inr m0"
  shows "width (image_m m0) = 1" "height (image_m m0) = 1" "left m0 = 19" "right m0 = 20"
    "top_m m0 = 1" "bottom m0 = 0" "stopNorm m0 = 400"
  using assms by (auto simp: ctor_defs)

theorem escape_at_cap_gets_bodyColor_witness:
  "\<exists>m0. Mandlebrot_ctor 1 19 1 20 0 = Inr m0 \<and>
     (let m = m0\<lparr>maxIterations := 1\<rparr> in
        0 < width (image_m m) \<and> 0 < height (image_m m) \<and> maxIterations m < INT_MAX \<and>
        int 1 = maxIterations m \<and>
        std_norm (orbit (pixelPoint m 0 0) 0) < stopNorm m \<and>
        \<not> std_norm (orbit (pixelPoint m 0 0) 1) < stopNorm m \<and>
        loopExit m 0 0 = Inr (Complex 379 39, 1) \<and>
        (\<exists>m'. computePixel m 0 0 = Inr m' \<and>
           data (image_m m') (0, 0) = Some \<lparr>red = 0, green = 0, blue = 0\<rparr>))"
proof -
  obtain m0 where m0: "Mandlebrot_ctor 1 19 1 20 0 = Inr m0"
    by (simp add: ctor_defs)
  define m where "m = m0\<lparr>maxIterations := 1\<rparr>"
  note f = near_edge_fields [OF m0]
  have r: "(0::int) \<le> 0" "0 < width (image_m m)" "(0::int) \<le> 0" "0 < height (image_m m)"
    and c: "maxIterations m < INT_MAX"
    by (simp_all add: m_def f INT_MAX_def)
  have p: "pixelPoint m 0 0 = Complex 19 1"
    by (simp add: pixelPoint_def m_def f)
  have sm: "stopNorm m = 400" and bc: "bodyColor m = \<lparr>red = 0, green = 0, blue = 0\<rparr>"
    using ctor_fields [OF m0] by (simp_all add: m_def)
  have o1: "orbit (pixelPoint m 0 0) 1 = Complex 379 39"
    by (simp add: p step_def complex_eq_iff)
  have i0: "std_norm (orbit (pixelPoint m 0 0) 0) < stopNorm m"
    by (simp add: p std_norm_def sm)
  have i1: "\<not> std_norm (orbit (pixelPoint m 0 0) 1) < stopNorm m"
    unfolding o1 by (simp add: std_norm_def sm)
  have "loopExit m 0 0 = Inr (orbit (pixelPoint m 0 0) 1, maxIterations m) \<and>
        (\<exists>m'. computePixel m 0 0 = Inr m' \<and> data (image_m m') (0, 0) = Some (bodyColor m) \<and>
           m' = setPixel m 0 0 (bodyColor m))"
    using escape_at_cap_gets_bodyColor [OF r c] i0 i1
    by (auto simp: m_def)
  then have "loopExit m 0 0 = Inr (Complex 379 39, 1) \<and>
        (\<exists>m'. computePixel m 0 0 = Inr m' \<and>
           data (image_m m') (0, 0) = Some \<lparr>red = 0, green = 0, blue = 0\<rparr>)"
    unfolding o1 bc by (auto simp: m_def)
  then show ?thesis
    using m0 r c i0 i1 unfolding m_def Let_def by (intro exI [of _ m0]) simp
qed

section \<open>Claim C4: the column blocks\<close>

lemma int_div_nonneg: "0 \<le> a \<Longrightarrow> int_div a 100 = a div 100"
  by (simp add: int_div_def)

lemma blockEdge_mono: "0 \<le> w \<Longrightarrow> k \<le> k' \<Longrightarrow> blockEdge w k \<le> blockEdge w k'"
  unfolding blockEdge_def by (intro zdiv_mono1 mult_right_mono) simp_all

lemma blockEdge_0 [simp]: "blockEdge w 0 = 0"
  by (simp add: blockEdge_def)

lemma blockEdge_100 [simp]: "blockEdge w 100 = w"
  by (simp add: blockEdge_def)

lemma blockEdge_range: "0 \<le> w \<Longrightarrow> 0 \<le> k \<Longrightarrow> k \<le> 100 \<Longrightarrow> 0 \<le> blockEdge w k \<and> blockEdge w k \<le> w"
  using blockEdge_mono [of w 0 k] blockEdge_mono [of w k 100] by simp

lemma block_covering:
  assumes w: "0 \<le> w" and x: "0 \<le> x" "x < w"
  shows "\<exists>k. 0 \<le> k \<and> k < 100 \<and> blockEdge w k \<le> x \<and> x < blockEdge w (k + 1)"
proof (rule ccontr)
  assume none: "\<not> ?thesis"
  have "blockEdge w (int n) \<le> x" if "n \<le> 100" for n
    using that
  proof (induction n)
    case 0
    then show ?case using x by simp
  next
    case (Suc n)
    then have "blockEdge w (int n) \<le> x" by simp
    moreover have "0 \<le> int n" "int n < 100" using Suc.prems by simp_all
    ultimately have "\<not> x < blockEdge w (int n + 1)" using none by blast
    then show ?case by (simp add: add.commute)
  qed
  from this [of 100] show False using x by simp
qed

lemma block_disjoint:
  assumes w: "0 \<le> w"
    and k: "blockEdge w k \<le> x" "x < blockEdge w (k + 1)"
    and k': "blockEdge w k' \<le> x" "x < blockEdge w (k' + 1)"
  shows "k = k'"
proof (rule ccontr)
  assume "k \<noteq> k'"
  then consider "k + 1 \<le> k'" | "k' + 1 \<le> k" by linarith
  then show False
  proof cases
    case 1
    from blockEdge_mono [OF w 1] k k' show False by simp
  next
    case 2
    from blockEdge_mono [OF w 2] k k' show False by simp
  qed
qed

lemma blockBounds_ok:
  assumes "0 \<le> k" "k < 100" "0 \<le> width (image_m m)" "100 * width (image_m m) \<le> INT_MAX"
  shows "blockBounds m k = Inr (blockEdge (width (image_m m)) k, blockEdge (width (image_m m)) (k + 1))"
proof -
  let ?w = "width (image_m m)"
  have a: "0 \<le> k * ?w" "0 \<le> (k + 1) * ?w" using assms by simp_all
  have "(k + 1) * ?w \<le> 100 * ?w" using assms by (intro mult_right_mono) simp_all
  moreover have "k * ?w \<le> (k + 1) * ?w" using assms by (intro mult_right_mono) simp_all
  ultimately have b: "k * ?w \<le> INT_MAX" "(k + 1) * ?w \<le> INT_MAX" using assms(4) by simp_all
  have c: "INT_MIN \<le> k * ?w" "INT_MIN \<le> (k + 1) * ?w" using a by (simp_all add: INT_MIN_def)
  show ?thesis
    using a b c by (simp add: blockBounds_def int_mul_def int_div_nonneg blockEdge_def)
qed

text \<open>
  While \<open>100 \<cdot> width\<close> fits in \<^verbatim>\<open>int\<close>, the bounds computed for the hundred blocks
  are the edges, every block lies in \<open>[0, width)\<close> and every column of the image is in
  exactly one block.
\<close>

lemma blocks_partition:
  assumes "0 \<le> width (image_m m)" "100 * width (image_m m) \<le> INT_MAX"
  shows "(\<forall>k. 0 \<le> k \<and> k < 100 \<longrightarrow>
            (\<exists>l r. blockBounds m k = Inr (l, r) \<and> 0 \<le> l \<and> l \<le> r \<and> r \<le> width (image_m m))) \<and>
         (\<forall>x. 0 \<le> x \<and> x < width (image_m m) \<longrightarrow>
            (\<exists>!k. 0 \<le> k \<and> k < 100 \<and>
               (\<exists>l r. blockBounds m k = Inr (l, r) \<and> l \<le> x \<and> x < r)))"
proof (intro conjI allI impI)
  fix k :: int
  assume k: "0 \<le> k \<and> k < 100"
  let ?w = "width (image_m m)"
  have "0 \<le> blockEdge ?w k" "blockEdge ?w (k + 1) \<le> ?w"
    using blockEdge_range [of ?w k] blockEdge_range [of ?w "k + 1"] assms(1) k by simp_all
  moreover have "blockEdge ?w k \<le> blockEdge ?w (k + 1)"
    using blockEdge_mono [OF assms(1), of k "k + 1"] by simp
  moreover have "blockBounds m k = Inr (blockEdge ?w k, blockEdge ?w (k + 1))"
    using blockBounds_ok [of k m] k assms by simp
  ultimately show "\<exists>l r. blockBounds m k = Inr (l, r) \<and> 0 \<le> l \<and> l \<le> r \<and> r \<le> ?w"
    by simp
next
  fix x :: int
  assume x: "0 \<le> x \<and> x < width (image_m m)"
  let ?w = "width (image_m m)"
  let ?inBlock = "\<lambda>k. 0 \<le> k \<and> k < 100 \<and> (\<exists>l r. blockBounds m k = Inr (l, r) \<and> l \<le> x \<and> x < r)"
  have eq: "?inBlock k \<longleftrightarrow> 0 \<le> k \<and> k < 100 \<and> blockEdge ?w k \<le> x \<and> x < blockEdge ?w (k + 1)"
    for k
  proof (cases "0 \<le> k \<and> k < 100")
    case True
    then have "blockBounds m k = Inr (blockEdge ?w k, blockEdge ?w (k + 1))"
      using blockBounds_ok [of k m] assms by simp
    then show ?thesis by simp
  next
    case False
    then show ?thesis by blast
  qed
  obtain k where k: "0 \<le> k \<and> k < 100 \<and> blockEdge ?w k \<le> x \<and> x < blockEdge ?w (k + 1)"
    using block_covering [OF assms(1), of x] x by blast
  have u: "k' = k" if "?inBlock k'" for k'
  proof -
    from that eq [of k']
    have "blockEdge ?w k' \<le> x \<and> x < blockEdge ?w (k' + 1)" by simp
    then show ?thesis
      using block_disjoint [OF assms(1), of k' x k] k by simp
  qed
  have ink: "?inBlock k" using k eq [of k] by simp
  show "\<exists>!k. ?inBlock k"
  proof (rule ex1I [of _ k])
    show "?inBlock k" by (rule ink)
  next
    fix k' assume "?inBlock k'"
    then show "k' = k" by (rule u)
  qed
qed

text \<open>
  Claim C4 says that the hundred blocks of \<^verbatim>\<open>computeMultiCore\<close> partition the columns
  of an image of any width.  The code computes \<^verbatim>\<open>(currentBlock+1) * image.width\<close> in
  \<^verbatim>\<open>int\<close>.  The fractal with resolution \<open>2\<^sup>2\<^sup>5\<close> on the rectangle from
  \<open>(0, 2\<^sup>-\<^sup>2\<^sup>5)\<close> to \<open>(0.75, 0)\<close> has a raster 25165824 wide and 1 high; block 84
  gets its bounds, and for block 85 the product \<open>86 \<cdot> 25165824\<close> exceeds
  \<^verbatim>\<open>INT_MAX\<close>, so the block has no defined columns.
\<close>

theorem blockBounds_overflow_wide_image:
  "rasterSize (Mandlebrot_ctor 33554432 0 (1 / 33554432) (3 / 4) 0) = Inr (25165824, 1) \<and>
   bindE (Mandlebrot_ctor 33554432 0 (1 / 33554432) (3 / 4) 0) (\<lambda>m. blockBounds m 84)
     = Inr (21139292, 21390950) \<and>
   bindE (Mandlebrot_ctor 33554432 0 (1 / 33554432) (3 / 4) 0) (\<lambda>m. blockBounds m 85)
     = Inl SignedOverflow"
  by (simp add: rasterSize_def ctor_defs blockBounds_def int_div_def)

section \<open>Claim C5: the index into the colour list\<close>

lemma log2_400_le: "log 2 400 \<le> 10"
proof -
  have "log 2 ((2::real) ^ 10) = real 10 * log 2 2"
    by (rule log_nat_power) simp
  then have e: "log 2 1024 = (10::real)"
    by simp
  have "log 2 400 \<le> log 2 (1024::real)"
    by simp
  also note e
  finally show ?thesis .
qed

lemma log2_400_pos: "0 < log 2 400"
  by simp

lemma double_to_unsigned_negative:
  "r \<le> - 1 \<Longrightarrow> double_to_unsigned r = Inl ConversionOutOfRange"
proof -
  assume "r \<le> - 1"
  then have "\<lceil>r\<rceil> \<le> - 1" "\<not> 0 \<le> r"
    by (simp_all add: ceiling_le_iff)
  then show ?thesis
    using \<open>r \<le> - 1\<close> by (simp add: double_to_unsigned_def trunc_toward_zero_def)
qed

lemma colorPosition_below:
  assumes "fN \<le> - 1" "length (colorList m) = 21"
  shows "colorPosition m fN \<le> - 1"
proof -
  have "1 + 0.05 \<le> exp (0.05 :: real)"
    by (rule exp_ge_add_one_self)
  also have "\<dots> \<le> exp (- 0.05 * fN)"
    using assms(1) by simp
  finally have "(1 - exp (- 0.05 * fN)) * 20 \<le> - 1"
    by simp
  then show ?thesis
    by (simp add: colorPosition_def assms(2))
qed

lemma smoothed_far_point:
  assumes "mSmooth m = 1" "bSmooth m = log 2 (0.5 * log 2 400)"
  shows "smoothedIterations m (Complex 1024 0) 0 \<le> - 1"
proof -
  have "log 2 ((2::real) ^ 20) = real 20 * log 2 2"
    by (rule log_nat_power) simp
  then have n: "log 2 (std_norm (Complex 1024 0)) = 20"
    by (simp add: std_norm_def)
  have "log 2 (0.5 * log 2 400) \<le> log 2 5"
    using log2_400_le log2_400_pos by (subst log_le_cancel_iff) simp_all
  moreover have "log 2 10 = log 2 5 + 1"
    using log_mult [of 2 5 2] by simp
  ultimately show ?thesis
    by (simp add: smoothedIterations_def assms n)
qed

text \<open>
  When the smoothed iteration number is not negative and the list has between 2 and
  \<open>2\<^sup>3\<^sup>2\<close> colours, \<^verbatim>\<open>nC\<close> lies in \<open>[0, size - 1)\<close>, the conversion to
  \<^verbatim>\<open>unsigned\<close> is defined and \<^verbatim>\<open>iC + 1\<close> is an index of the list.
\<close>

lemma colorPosition_range:
  assumes "0 \<le> fN" "2 \<le> length (colorList m)" "length (colorList m) \<le> 2 ^ 32"
  shows "0 \<le> colorPosition m fN \<and> colorPosition m fN < real (length (colorList m)) - 1"
proof -
  let ?n = "length (colorList m)"
  have n2: "2 \<le> int ?n"
    using assms(2) by linarith
  have "?n \<le> 4294967296"
    using assms(3) by simp
  then have n32: "int ?n \<le> 4294967296"
    by linarith
  have a0: "0 \<le> int ?n - 1"
    using n2 by linarith
  have "(4294967296::int) < 2 ^ 64"
    by simp
  then have a1: "int ?n - 1 < 2 ^ 64"
    using n32 by linarith
  from a0 a1
  have md: "(int ?n - 1) mod 2 ^ 64 = int ?n - 1"
    by (rule mod_pos_pos_trivial)
  have e: "0 < exp (- 0.05 * fN)" "exp (- 0.05 * fN) \<le> 1"
    using assms(1) by simp_all
  have pos: "0 < real ?n - 1" using assms(2) by simp
  have "(1 - exp (- 0.05 * fN)) * (real ?n - 1) < 1 * (real ?n - 1)"
    using e pos by (intro mult_strict_right_mono) simp_all
  moreover have "0 \<le> (1 - exp (- 0.05 * fN)) * (real ?n - 1)"
    using e pos by simp
  ultimately show ?thesis
    unfolding colorPosition_def md using assms(2) by simp
qed

lemma gradient_index_in_range:
  assumes "0 \<le> fN" "2 \<le> length (colorList m)" "length (colorList m) \<le> 2 ^ 32"
  shows "\<exists>iC. double_to_unsigned (colorPosition m fN) = Inr iC \<and> iC + 1 < length (colorList m) \<and>
           (iC + 1) mod 2 ^ 32 = iC + 1 \<and> real iC \<le> colorPosition m fN \<and>
           colorPosition m fN < real iC + 1"
proof -
  let ?n = "length (colorList m)"
  let ?nC = "colorPosition m fN"
  from colorPosition_range [OF assms]
  have r: "0 \<le> ?nC" "?nC < real ?n - 1" by simp_all
  have fl: "0 \<le> \<lfloor>?nC\<rfloor>" "\<lfloor>?nC\<rfloor> < int ?n - 1"
    using r by (simp_all add: floor_less_iff)
  have "int ?n \<le> 4294967296"
    using assms(3) by simp
  then have u: "\<lfloor>?nC\<rfloor> \<le> UINT_MAX"
    using fl(2) unfolding UINT_MAX_def by linarith
  have conv: "double_to_unsigned ?nC = Inr (nat \<lfloor>?nC\<rfloor>)"
    using r fl u by (simp add: double_to_unsigned_def trunc_toward_zero_def)
  have lt: "nat \<lfloor>?nC\<rfloor> + 1 < ?n"
    using fl by linarith
  then have "nat \<lfloor>?nC\<rfloor> + 1 < 2 ^ 32"
    using assms(3) by linarith
  then have md: "(nat \<lfloor>?nC\<rfloor> + 1) mod 2 ^ 32 = nat \<lfloor>?nC\<rfloor> + 1"
    by simp
  have "real (nat \<lfloor>?nC\<rfloor>) \<le> ?nC" "?nC < real (nat \<lfloor>?nC\<rfloor>) + 1"
    using fl(1) by (simp_all add: of_nat_nat)
  then show ?thesis
    using conv lt md by blast
qed

text \<open>
  Claim C5 says that \<^verbatim>\<open>iC + 1\<close> is below the number of colours for every escaped
  pixel and every list of at least 2 colours.  The code does not bound \<^verbatim>\<open>nC\<close> from
  below.  The fractal with resolution 1 on the rectangle from \<open>(1024, 0)\<close> to
  \<open>(1025, -1)\<close> has one pixel, the point 1024, which has escaped before the first step.
  Its smoothed iteration number is \<open>log\<^sub>2 (log\<^sub>2 400 / 20) \<le> -1\<close>, and with 21 colours
  \<^verbatim>\<open>nC\<close> is \<open>(1 - exp (-0.05 \<cdot> fN)) \<cdot> 20 \<le> -1\<close>: its conversion to \<^verbatim>\<open>unsigned\<close>
  is not defined, and no index of the list is obtained.
\<close>

theorem gradient_index_undefined_far_pixel:
  "bindE (Mandlebrot_ctor 1 1024 0 1025 (- 1))
     (\<lambda>m. loopExit
        (push_back_all (map (\<lambda>i. \<lparr>red = of_nat (12 * i), green = of_nat (12 * i), blue = 255\<rparr>) [0..<21]) m)
        0 0) = Inr (Complex 1024 0, 0) \<and>
   rasterSize (Mandlebrot_ctor 1 1024 0 1025 (- 1)) = Inr (1, 1) \<and>
   bindE (Mandlebrot_ctor 1 1024 0 1025 (- 1))
     (\<lambda>m. pixelColor
        (push_back_all (map (\<lambda>i. \<lparr>red = of_nat (12 * i), green = of_nat (12 * i), blue = 255\<rparr>) [0..<21]) m)
        0 0) = Inl ConversionOutOfRange"
proof -
  let ?cl = "map (\<lambda>i. \<lparr>red = of_nat (12 * i) :: 8 word, green = of_nat (12 * i), blue = 255\<rparr>) [0..<21]"
  obtain m0 where m0: "Mandlebrot_ctor 1 1024 0 1025 (- 1) = Inr m0"
    by (simp add: ctor_defs)
  note f = ctor_fields [OF m0]
  define m where "m = push_back_all ?cl m0"
  have size: "width (image_m m) = 1" "height (image_m m) = 1"
    using ctor_raster [OF m0] by (simp_all add: m_def trunc_toward_zero_def)
  have p: "pixelPoint m 0 0 = Complex 1024 0"
    by (simp add: pixelPoint_def size) (simp add: m_def f)
  have loop: "loopExit m 0 0 = Inr (Complex 1024 0, 0)"
    unfolding loopExit_def p
    by (rule escapeLoop_escaped) (simp add: std_norm_def m_def f)
  have len: "length (colorList m) = 21"
    by (simp add: m_def f)
  have "smoothedIterations m (Complex 1024 0) 0 \<le> - 1"
    by (rule smoothed_far_point) (simp_all add: m_def f)
  then have "colorPosition m (smoothedIterations m (Complex 1024 0) 0) \<le> - 1"
    using len by (rule colorPosition_below)
  then have "double_to_unsigned (colorPosition m (smoothedIterations m (Complex 1024 0) 0))
               = Inl ConversionOutOfRange"
    by (rule double_to_unsigned_negative)
  then have g: "gradientColor m (Complex 1024 0) 0 = Inl ConversionOutOfRange"
    by (simp add: gradientColor_def interpolate_def)
  have "maxIterations m = 100"
    by (simp add: m_def f)
  then have "pixelColor m 0 0 = Inl ConversionOutOfRange"
    by (simp add: pixelColor_def loop chooseColor_def g)
  moreover have "rasterSize (Mandlebrot_ctor 1 1024 0 1025 (- 1)) = Inr (1, 1)"
    unfolding m0 rasterSize_def using size by (simp add: m_def)
  ultimately show ?thesis
    using loop unfolding m0 m_def by simp
qed

section \<open>Claim C7: the blend across a colour of the list\<close>






lemma interpolate_between:
  assumes i: "i + 1 < length cl" "length cl \<le> 2 ^ 32" and n: "real i \<le> n" "n < real i + 1"
  shows "interpolate cl n = Inr (blendColors (cl ! i) (cl ! (i + 1)) (n - real i))"
proof -
  have fl: "\<lfloor>n\<rfloor> = int i"
    using n by (simp add: floor_eq_iff)
  have nn: "0 \<le> n"
    using n(1) by (rule order_trans [rotated]) simp
  have "length cl \<le> 4294967296"
    using i(2) by simp
  then have small: "i + 1 < 4294967296"
    using i(1) by linarith
  then have conv: "double_to_unsigned n = Inr i"
    using nn fl by (simp add: double_to_unsigned_def trunc_toward_zero_def UINT_MAX_def)
  have md: "(i + 1) mod 2 ^ 32 = i + 1"
    using small by simp
  have at: "vector_at cl i = Inr (cl ! i)" "vector_at cl (i + 1) = Inr (cl ! (i + 1))"
    using i(1) by (simp_all add: vector_at_def)
  show ?thesis
    unfolding interpolate_def conv bindE_Inr Let_def md at blendColors_def ..
qed




text \<open>The weight and the blended values are in their ranges, and their conversions are defined.\<close>

lemma mixWeight_range: "0 \<le> mixWeight fC \<and> mixWeight fC \<le> 1"
proof -
  have c: "0 \<le> 1 + cos (pi * fC)"
    using cos_ge_minus_one [of "pi * fC"] by linarith
  have d: "1 + cos (pi * fC) \<le> 2"
    using cos_le_one [of "pi * fC"] by linarith
  have "0 \<le> mixWeight fC"
    unfolding mixWeight_def using c by simp
  moreover have "mixWeight fC \<le> 1"
    unfolding mixWeight_def using d by simp
  ultimately show ?thesis ..
qed

lemma unat_channel: "real (unat (c :: 8 word)) \<le> 255"
proof -
  have "unat c < 2 ^ LENGTH(8)"
    by (rule unsigned_less)
  then have "unat c \<le> 255"
    by simp
  then show ?thesis
    by linarith
qed

lemma blend_range:
  assumes "0 \<le> mix" "mix \<le> 1"
  shows "0 \<le> blend a b mix \<and> blend a b mix \<le> 255"
proof -
  have a: "real (unat a) * mix \<le> 255 * mix"
    using unat_channel [of a] assms(1) by (rule mult_right_mono)
  have "0 \<le> 1 - mix"
    using assms(2) by simp
  with unat_channel [of b] have b: "real (unat b) * (1 - mix) \<le> 255 * (1 - mix)"
    by (rule mult_right_mono)
  have "blend a b mix \<le> 255 * mix + 255 * (1 - mix)"
    unfolding blend_def using a b by (rule add_mono)
  also have "\<dots> = 255"
    by (simp add: algebra_simps)
  finally have le: "blend a b mix \<le> 255" .
  have "0 \<le> real (unat a) * mix" "0 \<le> real (unat b) * (1 - mix)"
    using assms by (simp_all only: mult_nonneg_nonneg of_nat_0_le_iff diff_ge_0_iff_ge)
  then have "0 \<le> blend a b mix"
    unfolding blend_def by (rule add_nonneg_nonneg)
  then show ?thesis
    using le ..
qed

lemma double_to_uchar_range:
  assumes "0 \<le> r" "r \<le> 255"
  shows "double_to_uchar r = Inr (word_of_int \<lfloor>r\<rfloor>)"
proof -
  have "0 \<le> \<lfloor>r\<rfloor>" "\<lfloor>r\<rfloor> \<le> 255"
    using assms by (simp_all add: floor_le_iff)
  then show ?thesis
    using assms(1) by (simp add: double_to_uchar_def trunc_toward_zero_def)
qed

lemma blend_converts:
  "\<exists>c. double_to_uchar (blend a b (mixWeight fC)) = Inr c"
  using double_to_uchar_range [of "blend a b (mixWeight fC)"]
    blend_range [of "mixWeight fC" a b] mixWeight_range [of fC]
  by simp























section \<open>Claim C2: computePixel evaluates the reference iteration\<close>

lemma spec_iterate_stops:
  "spec_iterate stopN maxIt c z n = (z', n') \<Longrightarrow>
     (stopN \<le> (cmod z')\<^sup>2 \<or> maxIt \<le> n') \<and> n \<le> n' \<and> n' \<le> max n maxIt"
proof (induction stopN maxIt c z n rule: spec_iterate.induct)
  case (1 stopN maxIt c z n)
  show ?case
  proof (cases "stopN \<le> (cmod z)\<^sup>2 \<or> maxIt \<le> n")
    case True
    then show ?thesis
      using 1(2) by (auto simp: spec_iterate.simps [of stopN maxIt c z n])
  next
    case False
    then show ?thesis
      using 1 by (auto simp: spec_iterate.simps [of stopN maxIt c z n])
  qed
qed

lemma pixelPoint_spec: "pixelPoint m x y = spec_point m x y"
  by (simp add: pixelPoint_def spec_point_def)

text \<open>
  When the smoothed iteration number is not negative and the list has between 2 and
  \<open>2\<^sup>3\<^sup>2\<close> colours, the colour of the gradient is defined.
\<close>

lemma gradientColor_defined:
  assumes "0 \<le> smoothedIterations m z iN" "2 \<le> length (colorList m)"
    "length (colorList m) \<le> 2 ^ 32"
  shows "\<exists>col. gradientColor m z iN = Inr col"
proof -
  let ?nC = "colorPosition m (smoothedIterations m z iN)"
  obtain iC where iC: "iC + 1 < length (colorList m)" "real iC \<le> ?nC" "?nC < real iC + 1"
    using gradient_index_in_range [OF assms] by blast
  have i: "interpolate (colorList m) ?nC
             = Inr (blendColors (colorList m ! iC) (colorList m ! (iC + 1)) (?nC - real iC))"
    using iC(1) assms(3) iC(2,3) by (rule interpolate_between)
  obtain r' g' b' where
    "double_to_uchar (blend (red (colorList m ! iC)) (red (colorList m ! (iC + 1)))
        (mixWeight (?nC - real iC))) = Inr r'"
    "double_to_uchar (blend (green (colorList m ! iC)) (green (colorList m ! (iC + 1)))
        (mixWeight (?nC - real iC))) = Inr g'"
    "double_to_uchar (blend (blue (colorList m ! iC)) (blue (colorList m ! (iC + 1)))
        (mixWeight (?nC - real iC))) = Inr b'"
    using blend_converts by metis
  then show ?thesis
    by (simp add: gradientColor_def Let_def i blendColors_def)
qed

text \<open>
  Pixel \<open>(1850, 625)\<close> of the image of \<^verbatim>\<open>main\<close> is the point 1.  Its orbit is
  1, 2, 5, 26: the third step leaves the threshold, and the colour of the gradient for
  these exit values is defined.
\<close>

lemma log2_4: "log 2 4 = (2::real)"
proof -
  have "log 2 ((2::real) ^ 2) = real 2 * log 2 2"
    by (rule log_nat_power) simp
  then show ?thesis by simp
qed

lemma log2_8: "log 2 8 = (3::real)"
proof -
  have "log 2 ((2::real) ^ 3) = real 3 * log 2 2"
    by (rule log_nat_power) simp
  then show ?thesis by simp
qed

lemma log2_1024: "log 2 1024 = (10::real)"
proof -
  have "log 2 ((2::real) ^ 10) = real 10 * log 2 2"
    by (rule log_nat_power) simp
  then show ?thesis by simp
qed

lemma bSmooth_nonneg: "0 \<le> log 2 (0.5 * log 2 400)"
proof -
  have "log 2 4 \<le> log 2 (400::real)"
    by simp
  then have "1 \<le> 0.5 * log 2 400"
    unfolding log2_4 by simp
  then show ?thesis
    by simp
qed

lemma smoothed_26: "log 2 (0.5 * log 2 676) \<le> 3"
proof -
  have "log 2 676 \<le> log 2 (1024::real)"
    by simp
  then have a: "0.5 * log 2 676 \<le> (8::real)"
    unfolding log2_1024 by simp
  have b: "(0::real) < 0.5 * log 2 676"
    by simp
  have "log 2 (0.5 * log 2 676) \<le> log 2 8"
    using a b by (subst log_le_cancel_iff) simp_all
  then show ?thesis
    unfolding log2_8 .
qed

lemma smoothed_nonneg_aux: "0 \<le> B \<Longrightarrow> L \<le> 3 \<Longrightarrow> 0 \<le> real_of_int 3 + B - 1 * L"
  by simp

lemma mainFractal_one:
  assumes "mainFractal = Inr m"
  shows "pixelPoint m 1850 625 = 1"
  by (simp add: pixelPoint_def complex_eq_iff mainFractal_fields [OF assms])

lemma mainFractal_one_gradient:
  assumes "mainFractal = Inr m"
  shows "\<exists>col. gradientColor m 26 3 = Inr col"
proof (rule gradientColor_defined)
  have n: "std_norm 26 = 676"
    by (simp add: std_norm_def)
  show "0 \<le> smoothedIterations m 26 3"
    unfolding smoothedIterations_def mainFractal_smooth [OF assms] n
    by (rule smoothed_nonneg_aux [OF bSmooth_nonneg smoothed_26])
  show "2 \<le> length (colorList m)" "length (colorList m) \<le> 2 ^ 32"
    by (simp_all add: mainFractal_fields [OF assms] mainColors_def)
qed

lemma spec_iterate_one: "spec_iterate 400 100 1 1 0 = (26, 3)"
  by (simp add: spec_iterate.simps)

text \<open>
  Claim C2.  For every pixel of the raster \<^verbatim>\<open>computePixel\<close> evaluates the reference
  iteration: with \<open>(z, n)\<close> the result of the reference iteration (the point
  \<open>c = (left + (right - left) \<cdot> x / width, top + (bottom - top) \<cdot> y / height)\<close>, \<open>z\<close>
  started at \<open>c\<close> and replaced by \<open>z\<^sup>2 + c\<close>, the count \<open>n\<close> of the replacements, the
  stop exactly when \<open>|z|\<^sup>2 \<ge> stopNorm\<close> or \<open>n\<close> has reached \<^verbatim>\<open>maxIterations\<close>), the
  loop of \<^verbatim>\<open>computePixel\<close> ends with this \<open>z\<close> and with its counter equal to \<open>n\<close>
  at an escape and to \<open>n + 1\<close> at a stop by the cap, and \<^verbatim>\<open>computePixel\<close> assigns
  to the cell of the pixel the body colour when \<open>n\<close> has reached \<^verbatim>\<open>maxIterations\<close>
  and the colour of the gradient for \<open>z\<close> and \<open>n\<close> otherwise.  The cap is below
  \<^verbatim>\<open>INT_MAX\<close>, so that the counter does not overflow.
\<close>

theorem computePixel_refines_reference:
  assumes "0 \<le> x" "x < width (image_m m)" "0 \<le> y" "y < height (image_m m)"
    and "maxIterations m < INT_MAX"
  shows "\<exists>z n. spec_iterate (stopNorm m) (maxIterations m) (spec_point m x y) (spec_point m x y) 0
              = (z, n) \<and>
       (stopNorm m \<le> (cmod z)\<^sup>2 \<or> n = max 0 (maxIterations m)) \<and>
       loopExit m x y = Inr (z, if stopNorm m \<le> (cmod z)\<^sup>2 then n else n + 1) \<and>
       computePixel m x y =
         bindE (if maxIterations m \<le> n then Inr (bodyColor m) else gradientColor m z n)
           (\<lambda>col. Inr (setPixel m x y col)) \<and>
       (\<forall>col. (if maxIterations m \<le> n then Inr (bodyColor m) else gradientColor m z n) = Inr col \<longrightarrow>
          (\<exists>m'. computePixel m x y = Inr m' \<and> data (image_m m') (y, x) = Some col))"
proof -
  obtain z n where s:
    "spec_iterate (stopNorm m) (maxIterations m) (spec_point m x y) (spec_point m x y) 0 = (z, n)"
    by (cases "spec_iterate (stopNorm m) (maxIterations m) (spec_point m x y) (spec_point m x y) 0")
  have stop: "stopNorm m \<le> (cmod z)\<^sup>2 \<or> maxIterations m \<le> n"
    and bounds: "0 \<le> n" "n \<le> max 0 (maxIterations m)"
    using spec_iterate_stops [OF s] by auto
  let ?iN = "if stopNorm m \<le> (cmod z)\<^sup>2 then n else n + 1"
  let ?chosen = "if maxIterations m \<le> n then Inr (bodyColor m) else gradientColor m z n"
  have loop: "loopExit m x y = Inr (z, ?iN)"
    using escapeLoop_refines [OF assms(5), of 0 "pixelPoint m x y" "pixelPoint m x y"] s
    by (simp add: loopExit_def pixelPoint_spec INT_MAX_def)
  have "chooseColor m z ?iN = ?chosen"
    using stop by (auto simp: chooseColor_def)
  then have px: "computePixel m x y = bindE ?chosen (\<lambda>col. Inr (setPixel m x y col))"
    using computePixel_chosen [OF loop in_raster_allocated [OF assms(1-4)]] by simp
  have "\<exists>m'. computePixel m x y = Inr m' \<and> data (image_m m') (y, x) = Some col"
    if "?chosen = Inr col" for col
    unfolding px that by simp
  then show ?thesis
    using s stop bounds loop px by (intro exI [of _ z] exI [of _ n]) auto
qed

text \<open>The theorem at pixel \<open>(1850, 625)\<close> of the image of \<^verbatim>\<open>main\<close>.\<close>

theorem computePixel_refines_reference_witness:
  "\<exists>m. mainFractal = Inr m \<and> 1850 < width (image_m m) \<and> 625 < height (image_m m) \<and>
     maxIterations m < INT_MAX \<and> spec_point m 1850 625 = 1 \<and>
     spec_iterate (stopNorm m) (maxIterations m) (spec_point m 1850 625) (spec_point m 1850 625) 0
       = (26, 3) \<and>
     loopExit m 1850 625 = Inr (26, 3) \<and>
     (\<exists>col m'. gradientColor m 26 3 = Inr col \<and> computePixel m 1850 625 = Inr m' \<and>
        data (image_m m') (625, 1850) = Some col)"
proof -
  obtain m where m: "mainFractal = Inr m"
    using mainFractal_ok by blast
  have r: "(0::int) \<le> 1850" "1850 < width (image_m m)" "(0::int) \<le> 625" "625 < height (image_m m)"
    by (simp_all add: mainFractal_fields [OF m])
  have c: "maxIterations m < INT_MAX"
    by (simp add: mainFractal_fields [OF m] INT_MAX_def)
  have p: "spec_point m 1850 625 = 1"
    using mainFractal_one [OF m] by (simp add: pixelPoint_spec)
  have it: "spec_iterate (stopNorm m) (maxIterations m) (spec_point m 1850 625)
              (spec_point m 1850 625) 0 = (26, 3)"
    unfolding p by (simp add: mainFractal_fields [OF m] spec_iterate_one)
  obtain col where col: "gradientColor m 26 3 = Inr col"
    using mainFractal_one_gradient [OF m] by blast
  from computePixel_refines_reference [OF r c]
  have "loopExit m 1850 625 = Inr (26, 3) \<and>
        (\<exists>m'. computePixel m 1850 625 = Inr m' \<and> data (image_m m') (625, 1850) = Some col)"
    unfolding it using col by (simp add: mainFractal_fields [OF m])
  then show ?thesis
    using m r c p it col by blast
qed

section \<open>Claim C1: the rendering by threads and the rendering by one loop\<close>

text \<open>
  \<^verbatim>\<open>computePixel\<close> reads the parameters of the fractal and the size of the image,
  never the cells of the image, and writes the cell of its pixel only.
\<close>

lemma withData_same [simp]: "withData m (data (image_m m)) = m"
  by (simp add: withData_def)

lemma withData_withData [simp]: "withData (withData m d) d' = withData m d'"
  by (simp add: withData_def)

lemma withData_fields [simp]:
  "width (image_m (withData m d)) = width (image_m m)"
  "height (image_m (withData m d)) = height (image_m m)"
  "data (image_m (withData m d)) = d"
  "colorList (withData m d) = colorList m" "bodyColor (withData m d) = bodyColor m"
  "left (withData m d) = left m" "right (withData m d) = right m"
  "top_m (withData m d) = top_m m" "bottom (withData m d) = bottom m"
  "maxIterations (withData m d) = maxIterations m" "stopNorm (withData m d) = stopNorm m"
  "mSmooth (withData m d) = mSmooth m" "bSmooth (withData m d) = bSmooth m"
  by (simp_all add: withData_def)

lemma setPixel_withData: "setPixel (withData m d) x y col = withData m (d((y, x) \<mapsto> col))"
  by (simp add: setPixel_def withData_def)

lemma escapeLoop_parameters:
  "stopNorm m = stopNorm m' \<Longrightarrow> maxIterations m = maxIterations m' \<Longrightarrow>
   escapeLoop m c z iN = escapeLoop m' c z iN"
proof (induction m c z iN rule: escapeLoop.induct)
  case (1 m c z iN)
  then show ?case
    by (simp add: escapeLoop.simps [of m c z iN] escapeLoop.simps [of m' c z iN])
qed

lemma loopExit_withData [simp]: "loopExit (withData m d) x y = loopExit m x y"
  using escapeLoop_parameters [of "withData m d" m]
  by (simp add: loopExit_def pixelPoint_def)

lemma chooseColor_withData [simp]: "chooseColor (withData m d) z iN = chooseColor m z iN"
  by (simp add: chooseColor_def gradientColor_def smoothedIterations_def colorPosition_def)

lemma allocated_withData [simp]: "allocated (image_m (withData m d)) x y = allocated (image_m m) x y"
  by (simp add: allocated_def)

lemma writtenColor_withData [simp]: "writtenColor (withData m d) x y = writtenColor m x y"
  by (simp add: writtenColor_def cong: if_cong)

lemma computePixel_written:
  "computePixel m x y = bindE (writtenColor m x y) (\<lambda>col. Inr (setPixel m x y col))"
  by (cases "loopExit m x y") (auto simp: computePixel_def writtenColor_def)

lemma computePixel_withData:
  "computePixel (withData m d) x y =
     bindE (writtenColor m x y) (\<lambda>col. Inr (withData m (d((y, x) \<mapsto> col))))"
  by (simp add: computePixel_written setPixel_withData)

lemma painted_empty [simp]: "painted m d {} = d"
  by (simp add: painted_def fun_eq_iff)

lemma painted_insert:
  "writtenColor m x y = Inr col \<Longrightarrow>
   painted m (d((y, x) \<mapsto> col)) S = painted m d (insert (x, y) S)"
  by (auto simp: painted_def fun_eq_iff split: sum.splits)

lemma painted_insert':
  "writtenColor m x y = Inr col \<Longrightarrow>
   (painted m d S)((y, x) \<mapsto> col) = painted m d (insert (x, y) S)"
  by (auto simp: painted_def fun_eq_iff split: sum.splits)

lemma computePixels_success:
  "(\<And>x y. (x, y) \<in> set ps \<Longrightarrow> \<exists>col. writtenColor m x y = Inr col) \<Longrightarrow>
   computePixels (withData m d) ps = Inr (withData m (painted m d (set ps)))"
proof (induction ps arbitrary: d)
  case Nil
  then show ?case by simp
next
  case (Cons p ps)
  obtain x y where p: "p = (x, y)" by (cases p)
  obtain col where col: "writtenColor m x y = Inr col"
    using Cons.prems [of x y] p by auto
  have "computePixels (withData m d) (p # ps) = computePixels (withData m (d((y, x) \<mapsto> col))) ps"
    by (simp add: p computePixel_withData col)
  also have "\<dots> = Inr (withData m (painted m (d((y, x) \<mapsto> col)) (set ps)))"
    using Cons.prems by (intro Cons.IH) simp
  finally show ?case
    by (simp add: painted_insert [OF col] p)
qed

lemma computePixels_Inr_written:
  "computePixels (withData m d) ps = Inr m' \<Longrightarrow> (x, y) \<in> set ps \<Longrightarrow>
   \<exists>col. writtenColor m x y = Inr col"
proof (induction ps arbitrary: d)
  case Nil
  then show ?case by simp
next
  case (Cons p ps)
  obtain x' y' where p: "p = (x', y')" by (cases p)
  from Cons.prems(1) obtain col where
    col: "writtenColor m x' y' = Inr col" and
    rest: "computePixels (withData m (d((y', x') \<mapsto> col))) ps = Inr m'"
    by (auto simp: p computePixel_withData bindE_eq_Inr)
  show ?case
  proof (cases "(x, y) = (x', y')")
    case True
    then show ?thesis using col by simp
  next
    case False
    then have "(x, y) \<in> set ps" using Cons.prems(2) p by auto
    then show ?thesis by (rule Cons.IH [OF rest])
  qed
qed

text \<open>The pixels of the blocks.\<close>

lemma set_areaPixels:
  "set (areaPixels l t r b) = {(x, y). l \<le> x \<and> x < r \<and> t \<le> y \<and> y < b}"
  by (auto simp: areaPixels_def)

lemma pendingOf_simps [simp]:
  "pendingOf Claiming = {}" "pendingOf Finished = {}" "pendingOf (Computing ps) = set ps"
  by (simp_all add: pendingOf_def)

lemma blockPixels_ok:
  assumes "0 \<le> k" "k < 100" "0 \<le> width (image_m m)" "100 * width (image_m m) \<le> INT_MAX"
  shows "\<exists>ps. blockPixels (withData m d) k = Inr ps \<and> set ps = blockSet m k"
  using blockBounds_ok [of k "withData m d"] assms
  by (simp add: blockPixels_def set_areaPixels blockSet_def)

lemma claimed_next:
  "0 \<le> k \<Longrightarrow> k < 100 \<Longrightarrow> claimed m (k + 1) = claimed m k \<union> blockSet m k"
proof (intro set_eqI iffI)
  fix p assume "p \<in> claimed m (k + 1)"
  then obtain j where j: "0 \<le> j" "j < k + 1" "j < 100" "p \<in> blockSet m j"
    by (auto simp: claimed_def)
  show "p \<in> claimed m k \<union> blockSet m k"
  proof (cases "j = k")
    case True
    then show ?thesis using j by simp
  next
    case False
    then have "j < k" using j(2) by simp
    then show ?thesis using j by (auto simp: claimed_def)
  qed
next
  fix p assume k: "0 \<le> k" "k < 100" and "p \<in> claimed m k \<union> blockSet m k"
  then consider "p \<in> claimed m k" | "p \<in> blockSet m k" by blast
  then show "p \<in> claimed m (k + 1)"
  proof cases
    case 1
    then obtain j where "0 \<le> j" "j < k" "j < 100" "p \<in> blockSet m j"
      by (auto simp: claimed_def)
    then show ?thesis unfolding claimed_def by (intro CollectI exI [of _ j]) simp
  next
    case 2
    then show ?thesis unfolding claimed_def using k by (intro CollectI exI [of _ k]) simp
  qed
qed

lemma claimed_done:
  "100 \<le> nb \<Longrightarrow> claimed m (nb + 1) = claimed m nb"
  by (auto simp: claimed_def)

lemma claimed_all:
  assumes "0 \<le> width (image_m m)" "100 \<le> nb"
  shows "claimed m nb = set (areaPixels 0 0 (width (image_m m)) (height (image_m m)))"
proof (intro set_eqI iffI)
  fix p assume "p \<in> claimed m nb"
  then obtain k where k: "0 \<le> k" "k < 100" "p \<in> blockSet m k"
    by (auto simp: claimed_def)
  obtain x y where p: "p = (x, y)" by (cases p)
  have "0 \<le> blockEdge (width (image_m m)) k"
    "blockEdge (width (image_m m)) (k + 1) \<le> width (image_m m)"
    using blockEdge_range [of "width (image_m m)" k]
      blockEdge_range [of "width (image_m m)" "k + 1"] assms(1) k by simp_all
  then show "p \<in> set (areaPixels 0 0 (width (image_m m)) (height (image_m m)))"
    using k(3) by (auto simp: p blockSet_def set_areaPixels)
next
  fix p assume "p \<in> set (areaPixels 0 0 (width (image_m m)) (height (image_m m)))"
  then obtain x y where p: "p = (x, y)" and
    xy: "0 \<le> x" "x < width (image_m m)" "0 \<le> y" "y < height (image_m m)"
    by (auto simp: set_areaPixels)
  obtain k where k: "0 \<le> k" "k < 100" "blockEdge (width (image_m m)) k \<le> x"
    "x < blockEdge (width (image_m m)) (k + 1)"
    using block_covering [OF assms(1) xy(1,2)] by blast
  have "k < nb" using k(2) assms(2) by simp
  then show "p \<in> claimed m nb"
    unfolding claimed_def using k xy by (intro CollectI exI [of _ k]) (simp add: p blockSet_def)
qed

text \<open>Every step of a thread keeps the invariant.\<close>

lemma pending_update_subset: "pending (ws[i := w']) \<subseteq> pendingOf w' \<union> pending ws"
  using set_update_subset_insert [of ws i w'] by (auto simp: pending_def)

lemma pending_subset_update:
  assumes "i < length ws"
  shows "pending ws \<subseteq> pendingOf (ws ! i) \<union> pending (ws[i := w'])"
proof
  fix p assume "p \<in> pending ws"
  then obtain j where j: "j < length ws" "p \<in> pendingOf (ws ! j)"
    by (auto simp: pending_def in_set_conv_nth)
  show "p \<in> pendingOf (ws ! i) \<union> pending (ws[i := w'])"
  proof (cases "j = i")
    case True
    then show ?thesis using j by simp
  next
    case False
    then have "ws[i := w'] ! j = ws ! j" by simp
    moreover have "ws[i := w'] ! j \<in> set (ws[i := w'])"
      using j(1) by (intro nth_mem) simp
    ultimately show ?thesis using j(2) by (auto simp: pending_def)
  qed
qed

lemma pendingOf_update_subset:
  "i < length ws \<Longrightarrow> pendingOf w' \<subseteq> pending (ws[i := w'])"
  using set_update_memI [of i ws w'] by (auto simp: pending_def)

lemma pendingOf_nth_subset:
  "i < length ws \<Longrightarrow> pendingOf (ws ! i) \<subseteq> pending ws"
  using nth_mem [of i ws] unfolding pending_def by blast

lemma Finished_update:
  "Finished \<in> set (ws[i := w']) \<Longrightarrow> w' = Finished \<or> Finished \<in> set ws"
  using set_update_subset_insert [of ws i w'] by auto

text \<open>The invariant, taken apart and put together.\<close>

lemma mc_invD:
  assumes "mc_inv m n s"
  obtains D where "length (workers s) = n" "0 \<le> nextBlock s"
    "Finished \<in> set (workers s) \<longrightarrow> 100 \<le> nextBlock s"
    "fractal s = withData m (painted m (data (image_m m)) D)"
    "\<forall>p \<in> D. \<exists>col. writtenColor m (fst p) (snd p) = Inr col"
    "D \<subseteq> claimed m (nextBlock s)" "claimed m (nextBlock s) \<subseteq> D \<union> pending (workers s)"
    "pending (workers s) \<subseteq> claimed m (nextBlock s)"
  using assms unfolding mc_inv_def by blast

lemma mc_invI:
  assumes "length (workers s) = n" "0 \<le> nextBlock s"
    "Finished \<in> set (workers s) \<longrightarrow> 100 \<le> nextBlock s"
    "fractal s = withData m (painted m (data (image_m m)) D)"
    "\<forall>p \<in> D. \<exists>col. writtenColor m (fst p) (snd p) = Inr col"
    "D \<subseteq> claimed m (nextBlock s)" "claimed m (nextBlock s) \<subseteq> D \<union> pending (workers s)"
    "pending (workers s) \<subseteq> claimed m (nextBlock s)"
  shows "mc_inv m n s"
  unfolding mc_inv_def
  by (intro conjI assms(1-3) exI [of _ D]) (rule assms)+

lemma mc_inv_claim:
  assumes w: "0 \<le> width (image_m m)" "100 * width (image_m m) \<le> INT_MAX"
    and inv: "mc_inv m n s" and i: "i < length (workers s)" "workers s ! i = Claiming"
    and lt: "nextBlock s < 100"
  shows "\<exists>ps. blockPixels (fractal s) (nextBlock s) = Inr ps \<and>
           mc_inv m n (setWorker i (Computing ps) (s\<lparr>nextBlock := nextBlock s + 1\<rparr>))"
proof -
  let ?nb = "nextBlock s"
  let ?ws = "workers s"
  from inv obtain D where
    len: "length ?ws = n" and nb: "0 \<le> ?nb" and
    fin: "Finished \<in> set ?ws \<longrightarrow> 100 \<le> ?nb" and
    fr: "fractal s = withData m (painted m (data (image_m m)) D)" and
    wr: "\<forall>p \<in> D. \<exists>col. writtenColor m (fst p) (snd p) = Inr col" and
    d: "D \<subseteq> claimed m ?nb" and c: "claimed m ?nb \<subseteq> D \<union> pending ?ws" and
    p: "pending ?ws \<subseteq> claimed m ?nb"
    by (rule mc_invD)
  obtain ps where ps: "blockPixels (fractal s) ?nb = Inr ps" "set ps = blockSet m ?nb"
    using blockPixels_ok [OF nb lt w] unfolding fr by blast
  let ?ws' = "?ws[i := Computing ps]"
  let ?s' = "setWorker i (Computing ps) (s\<lparr>nextBlock := ?nb + 1\<rparr>)"
  have sel: "workers ?s' = ?ws'" "nextBlock ?s' = ?nb + 1" "fractal ?s' = fractal s"
    by (simp_all add: setWorker_def)
  have cn: "claimed m (?nb + 1) = claimed m ?nb \<union> blockSet m ?nb"
    by (rule claimed_next [OF nb lt])
  have f': "Finished \<in> set ?ws' \<longrightarrow> 100 \<le> ?nb + 1"
    using Finished_update [of ?ws i "Computing ps"] fin by auto
  have p1: "pending ?ws' \<subseteq> set ps \<union> pending ?ws"
    using pending_update_subset [of ?ws i "Computing ps"] by simp
  have p2: "pending ?ws \<subseteq> pending ?ws'"
    using pending_subset_update [OF i(1), of "Computing ps"] i(2) by simp
  have p3: "set ps \<subseteq> pending ?ws'"
    using pendingOf_update_subset [OF i(1), of "Computing ps"] by simp
  have "mc_inv m n ?s'"
  proof (rule mc_invI [where D = D])
    show "length (workers ?s') = n" unfolding sel using len by simp
    show "0 \<le> nextBlock ?s'" unfolding sel using nb by simp
    show "Finished \<in> set (workers ?s') \<longrightarrow> 100 \<le> nextBlock ?s'" unfolding sel by (rule f')
    show "fractal ?s' = withData m (painted m (data (image_m m)) D)" unfolding sel by (rule fr)
    show "\<forall>p \<in> D. \<exists>col. writtenColor m (fst p) (snd p) = Inr col" by (rule wr)
    show "D \<subseteq> claimed m (nextBlock ?s')" unfolding sel cn using d by blast
    show "claimed m (nextBlock ?s') \<subseteq> D \<union> pending (workers ?s')"
      unfolding sel cn using c p2 p3 ps(2) by blast
    show "pending (workers ?s') \<subseteq> claimed m (nextBlock ?s')"
      unfolding sel cn using p p1 ps(2) by blast
  qed
  then show ?thesis using ps(1) by blast
qed

lemma mc_inv_finish:
  assumes inv: "mc_inv m n s" and i: "i < length (workers s)" "workers s ! i = Claiming"
    and ge: "\<not> nextBlock s < 100"
  shows "mc_inv m n (setWorker i Finished (s\<lparr>nextBlock := nextBlock s + 1\<rparr>))"
proof -
  let ?nb = "nextBlock s"
  let ?ws = "workers s"
  from inv obtain D where
    len: "length ?ws = n" and nb: "0 \<le> ?nb" and
    fin: "Finished \<in> set ?ws \<longrightarrow> 100 \<le> ?nb" and
    fr: "fractal s = withData m (painted m (data (image_m m)) D)" and
    wr: "\<forall>p \<in> D. \<exists>col. writtenColor m (fst p) (snd p) = Inr col" and
    d: "D \<subseteq> claimed m ?nb" and c: "claimed m ?nb \<subseteq> D \<union> pending ?ws" and
    p: "pending ?ws \<subseteq> claimed m ?nb"
    by (rule mc_invD)
  let ?ws' = "?ws[i := Finished]"
  let ?s' = "setWorker i Finished (s\<lparr>nextBlock := ?nb + 1\<rparr>)"
  have sel: "workers ?s' = ?ws'" "nextBlock ?s' = ?nb + 1" "fractal ?s' = fractal s"
    by (simp_all add: setWorker_def)
  have cn: "claimed m (?nb + 1) = claimed m ?nb"
    using ge by (intro claimed_done) simp
  have p1: "pending ?ws' \<subseteq> pending ?ws"
    using pending_update_subset [of ?ws i Finished] by simp
  have p2: "pending ?ws \<subseteq> pending ?ws'"
    using pending_subset_update [OF i(1), of Finished] i(2) by simp
  show ?thesis
  proof (rule mc_invI [where D = D])
    show "length (workers ?s') = n" unfolding sel using len by simp
    show "0 \<le> nextBlock ?s'" unfolding sel using nb by simp
    show "Finished \<in> set (workers ?s') \<longrightarrow> 100 \<le> nextBlock ?s'" unfolding sel using ge by simp
    show "fractal ?s' = withData m (painted m (data (image_m m)) D)" unfolding sel by (rule fr)
    show "\<forall>p \<in> D. \<exists>col. writtenColor m (fst p) (snd p) = Inr col" by (rule wr)
    show "D \<subseteq> claimed m (nextBlock ?s')" unfolding sel cn by (rule d)
    show "claimed m (nextBlock ?s') \<subseteq> D \<union> pending (workers ?s')"
      unfolding sel cn using c p2 by blast
    show "pending (workers ?s') \<subseteq> claimed m (nextBlock ?s')"
      unfolding sel cn using p p1 by blast
  qed
qed

lemma mc_inv_report:
  assumes inv: "mc_inv m n s" and i: "i < length (workers s)" "workers s ! i = Computing []"
  shows "mc_inv m n (setWorker i Claiming (s\<lparr>doneBlock := doneBlock s + 1\<rparr>))"
proof -
  let ?nb = "nextBlock s"
  let ?ws = "workers s"
  from inv obtain D where
    len: "length ?ws = n" and nb: "0 \<le> ?nb" and
    fin: "Finished \<in> set ?ws \<longrightarrow> 100 \<le> ?nb" and
    fr: "fractal s = withData m (painted m (data (image_m m)) D)" and
    wr: "\<forall>p \<in> D. \<exists>col. writtenColor m (fst p) (snd p) = Inr col" and
    d: "D \<subseteq> claimed m ?nb" and c: "claimed m ?nb \<subseteq> D \<union> pending ?ws" and
    p: "pending ?ws \<subseteq> claimed m ?nb"
    by (rule mc_invD)
  let ?ws' = "?ws[i := Claiming]"
  let ?s' = "setWorker i Claiming (s\<lparr>doneBlock := doneBlock s + 1\<rparr>)"
  have sel: "workers ?s' = ?ws'" "nextBlock ?s' = ?nb" "fractal ?s' = fractal s"
    by (simp_all add: setWorker_def)
  have f': "Finished \<in> set ?ws' \<longrightarrow> 100 \<le> ?nb"
    using Finished_update [of ?ws i Claiming] fin by auto
  have p1: "pending ?ws' \<subseteq> pending ?ws"
    using pending_update_subset [of ?ws i Claiming] by simp
  have p2: "pending ?ws \<subseteq> pending ?ws'"
    using pending_subset_update [OF i(1), of Claiming] i(2) by simp
  show ?thesis
  proof (rule mc_invI [where D = D])
    show "length (workers ?s') = n" unfolding sel using len by simp
    show "0 \<le> nextBlock ?s'" unfolding sel by (rule nb)
    show "Finished \<in> set (workers ?s') \<longrightarrow> 100 \<le> nextBlock ?s'" unfolding sel by (rule f')
    show "fractal ?s' = withData m (painted m (data (image_m m)) D)" unfolding sel by (rule fr)
    show "\<forall>p \<in> D. \<exists>col. writtenColor m (fst p) (snd p) = Inr col" by (rule wr)
    show "D \<subseteq> claimed m (nextBlock ?s')" unfolding sel by (rule d)
    show "claimed m (nextBlock ?s') \<subseteq> D \<union> pending (workers ?s')"
      unfolding sel using c p2 by blast
    show "pending (workers ?s') \<subseteq> claimed m (nextBlock ?s')"
      unfolding sel using p p1 by blast
  qed
qed

lemma mc_inv_pixel:
  assumes inv: "mc_inv m n s" and i: "i < length (workers s)"
    "workers s ! i = Computing ((x, y) # ps)"
    and px: "computePixel (fractal s) x y = Inr m'"
  shows "mc_inv m n (setWorker i (Computing ps) (s\<lparr>fractal := m'\<rparr>))"
proof -
  let ?nb = "nextBlock s"
  let ?ws = "workers s"
  from inv obtain D where
    len: "length ?ws = n" and nb: "0 \<le> ?nb" and
    fin: "Finished \<in> set ?ws \<longrightarrow> 100 \<le> ?nb" and
    fr: "fractal s = withData m (painted m (data (image_m m)) D)" and
    wr: "\<forall>p \<in> D. \<exists>col. writtenColor m (fst p) (snd p) = Inr col" and
    d: "D \<subseteq> claimed m ?nb" and c: "claimed m ?nb \<subseteq> D \<union> pending ?ws" and
    p: "pending ?ws \<subseteq> claimed m ?nb"
    by (rule mc_invD)
  from px obtain col where col: "writtenColor m x y = Inr col" and
    m': "m' = withData m ((painted m (data (image_m m)) D)((y, x) \<mapsto> col))"
    unfolding fr computePixel_withData bindE_eq_Inr by auto
  have m'': "m' = withData m (painted m (data (image_m m)) (insert (x, y) D))"
    unfolding m' painted_insert' [OF col] ..
  let ?ws' = "?ws[i := Computing ps]"
  let ?s' = "setWorker i (Computing ps) (s\<lparr>fractal := m'\<rparr>)"
  have sel: "workers ?s' = ?ws'" "nextBlock ?s' = ?nb" "fractal ?s' = m'"
    by (simp_all add: setWorker_def)
  have f': "Finished \<in> set ?ws' \<longrightarrow> 100 \<le> ?nb"
    using Finished_update [of ?ws i "Computing ps"] fin by auto
  have p1: "pending ?ws' \<subseteq> set ps \<union> pending ?ws"
    using pending_update_subset [of ?ws i "Computing ps"] by simp
  have p2: "pending ?ws \<subseteq> insert (x, y) (set ps) \<union> pending ?ws'"
    using pending_subset_update [OF i(1), of "Computing ps"] i(2) by simp
  have p3: "insert (x, y) (set ps) \<subseteq> pending ?ws"
    using pendingOf_nth_subset [OF i(1)] i(2) by simp
  have p4: "set ps \<subseteq> pending ?ws'"
    using pendingOf_update_subset [OF i(1), of "Computing ps"] by simp
  show ?thesis
  proof (rule mc_invI [where D = "insert (x, y) D"])
    show "length (workers ?s') = n" unfolding sel using len by simp
    show "0 \<le> nextBlock ?s'" unfolding sel by (rule nb)
    show "Finished \<in> set (workers ?s') \<longrightarrow> 100 \<le> nextBlock ?s'" unfolding sel by (rule f')
    show "fractal ?s' = withData m (painted m (data (image_m m)) (insert (x, y) D))"
      unfolding sel by (rule m'')
    show "\<forall>p \<in> insert (x, y) D. \<exists>col. writtenColor m (fst p) (snd p) = Inr col"
      using wr col by simp
    show "insert (x, y) D \<subseteq> claimed m (nextBlock ?s')" unfolding sel using d p p3 by blast
    show "claimed m (nextBlock ?s') \<subseteq> insert (x, y) D \<union> pending (workers ?s')"
      unfolding sel using c p2 p4 by blast
    show "pending (workers ?s') \<subseteq> claimed m (nextBlock ?s')"
      unfolding sel using p p1 p3 by blast
  qed
qed

lemma mc_inv_step:
  assumes w: "0 \<le> width (image_m m)" "100 * width (image_m m) \<le> INT_MAX"
    and inv: "mc_inv m n s" and step: "workerStep i s = Inr s'"
  shows "mc_inv m n s'"
proof (cases "i < length (workers s)")
  case False
  then show ?thesis using step inv by (simp add: workerStep_def)
next
  case i: True
  show ?thesis
  proof (cases "workers s ! i")
    case Claiming
    show ?thesis
    proof (cases "nextBlock s < 100")
      case True
      obtain ps where ps: "blockPixels (fractal s) (nextBlock s) = Inr ps"
        "mc_inv m n (setWorker i (Computing ps) (s\<lparr>nextBlock := nextBlock s + 1\<rparr>))"
        using mc_inv_claim [OF w inv i Claiming True] by blast
      have "workerStep i s = Inr (setWorker i (Computing ps) (s\<lparr>nextBlock := nextBlock s + 1\<rparr>))"
        using i Claiming True ps(1) by (simp add: workerStep_def Let_def)
      then show ?thesis using step ps(2) by simp
    next
      case False
      have "workerStep i s = Inr (setWorker i Finished (s\<lparr>nextBlock := nextBlock s + 1\<rparr>))"
        using i Claiming False by (simp add: workerStep_def Let_def)
      then show ?thesis using step mc_inv_finish [OF inv i Claiming False] by simp
    qed
  next
    case (Computing ps)
    show ?thesis
    proof (cases ps)
      case Nil
      have "workerStep i s = Inr (setWorker i Claiming (s\<lparr>doneBlock := doneBlock s + 1\<rparr>))"
        using i Computing Nil by (simp add: workerStep_def)
      then show ?thesis using step mc_inv_report [OF inv i] Computing Nil by simp
    next
      case (Cons p ps')
      obtain x y where p: "p = (x, y)" by (cases p)
      have e: "workerStep i s = bindE (computePixel (fractal s) x y)
                 (\<lambda>m'. Inr (setWorker i (Computing ps') (s\<lparr>fractal := m'\<rparr>)))"
        using i Computing Cons p by (simp add: workerStep_def)
      have "bindE (computePixel (fractal s) x y)
              (\<lambda>m'. Inr (setWorker i (Computing ps') (s\<lparr>fractal := m'\<rparr>))) = Inr s'"
        using step unfolding e .
      then obtain m' where m': "computePixel (fractal s) x y = Inr m'"
        "s' = setWorker i (Computing ps') (s\<lparr>fractal := m'\<rparr>)"
        unfolding bindE_eq_Inr by auto
      show ?thesis
        unfolding m'(2) using inv i(1) _ m'(1)
        by (rule mc_inv_pixel) (simp add: Computing Cons p)
    qed
  next
    case Finished
    then show ?thesis using step inv i by (simp add: workerStep_def)
  qed
qed

lemma mc_inv_run:
  assumes w: "0 \<le> width (image_m m)" "100 * width (image_m m) \<le> INT_MAX"
  shows "mc_inv m n s \<Longrightarrow> runSchedule sched s = Inr s' \<Longrightarrow> mc_inv m n s'"
proof (induction sched arbitrary: s)
  case Nil
  then show ?case by simp
next
  case (Cons i sched)
  from Cons.prems(2) obtain s1 where s1: "workerStep i s = Inr s1" "runSchedule sched s1 = Inr s'"
    by (auto simp: bindE_eq_Inr)
  have "mc_inv m n s1"
    by (rule mc_inv_step [OF w Cons.prems(1) s1(1)])
  then show ?case using s1(2) by (rule Cons.IH)
qed

lemma mc_inv_start: "mc_inv m n (startThreads n m)"
proof (rule mc_invI [where D = "{}"])
  show "fractal (startThreads n m) = withData m (painted m (data (image_m m)) {})"
    by (simp add: startThreads_def)
qed (simp_all add: startThreads_def claimed_def pending_def)

lemma pending_joined: "joined s \<Longrightarrow> pending (workers s) = {}"
  by (auto simp: joined_def pending_def list_all_iff)

text \<open>
  While \<open>100 \<cdot> width\<close> fits in \<^verbatim>\<open>int\<close>: whenever \<^verbatim>\<open>computeMultiCore\<close> with at
  least one thread returns, under any schedule, \<^verbatim>\<open>computeSingleCore\<close> returns the same
  fractal, with the same colour in every cell of the image.
\<close>

lemma multicore_agrees_with_singlecore:
  assumes n: "0 < nThreads"
    and w: "0 \<le> width (image_m m)" "100 * width (image_m m) \<le> INT_MAX"
    and run: "computeMultiCore nThreads sched m = Some (Inr m')"
  shows "computeSingleCore m = Inr m'"
proof -
  from run obtain s where s: "runSchedule sched (startThreads nThreads m) = Inr s"
    "joined s" "m' = fractal s"
    by (auto simp: computeMultiCore_def split: sum.splits if_splits)
  have inv: "mc_inv m nThreads s"
    by (rule mc_inv_run [OF w mc_inv_start s(1)])
  from inv obtain D where
    len: "length (workers s) = nThreads" and
    fin: "Finished \<in> set (workers s) \<longrightarrow> 100 \<le> nextBlock s" and
    fr: "fractal s = withData m (painted m (data (image_m m)) D)" and
    wr: "\<forall>p \<in> D. \<exists>col. writtenColor m (fst p) (snd p) = Inr col" and
    d: "D \<subseteq> claimed m (nextBlock s)" and
    c: "claimed m (nextBlock s) \<subseteq> D \<union> pending (workers s)"
    by (rule mc_invD)
  have "workers s \<noteq> []" using len n by auto
  then have "Finished \<in> set (workers s)"
    using s(2) by (cases "workers s") (auto simp: joined_def)
  then have "100 \<le> nextBlock s" using fin by simp
  then have all: "claimed m (nextBlock s) = set (areaPixels 0 0 (width (image_m m)) (height (image_m m)))"
    by (rule claimed_all [OF w(1)])
  have D: "D = set (areaPixels 0 0 (width (image_m m)) (height (image_m m)))"
    using d c pending_joined [OF s(2)] all by auto
  have "computePixels (withData m (data (image_m m)))
          (areaPixels 0 0 (width (image_m m)) (height (image_m m)))
        = Inr (withData m (painted m (data (image_m m))
            (set (areaPixels 0 0 (width (image_m m)) (height (image_m m))))))"
  proof (rule computePixels_success)
    fix x y assume "(x, y) \<in> set (areaPixels 0 0 (width (image_m m)) (height (image_m m)))"
    then show "\<exists>col. writtenColor m x y = Inr col"
      using wr unfolding D by fastforce
  qed
  then show ?thesis
    by (simp add: computeSingleCore_def computeArea_def s(3) fr D)
qed

text \<open>There is a schedule under which the threads finish.\<close>

lemma runSchedule_append:
  "runSchedule (a @ b) s = bindE (runSchedule a s) (runSchedule b)"
  by (induction a arbitrary: s) (simp_all add: bindE_def split: sum.splits)

text \<open>A thread inside computeArea computes its pixels one after the other.\<close>

lemma run_pixels:
  "\<lbrakk>i < length (workers s); workers s ! i = Computing ps; fractal s = withData m d;
    \<And>x y. (x, y) \<in> set ps \<Longrightarrow> \<exists>col. writtenColor m x y = Inr col\<rbrakk> \<Longrightarrow>
   \<exists>s' d'. runSchedule (replicate (length ps) i) s = Inr s' \<and>
     workers s' = (workers s)[i := Computing []] \<and> nextBlock s' = nextBlock s \<and>
     fractal s' = withData m d'"
proof (induction ps arbitrary: s d)
  case Nil
  have "(workers s)[i := Computing []] = workers s"
    using Nil.prems(1,2) by (metis list_update_id)
  then show ?case using Nil.prems(3) by auto
next
  case (Cons p ps)
  obtain x y where p: "p = (x, y)" by (cases p)
  obtain col where col: "writtenColor m x y = Inr col"
    using Cons.prems(4) [of x y] p by auto
  define s1 where "s1 = setWorker i (Computing ps) (s\<lparr>fractal := withData m (d((y, x) \<mapsto> col))\<rparr>)"
  have step: "workerStep i s = Inr s1"
    using Cons.prems(1,2) p
    by (simp add: workerStep_def Cons.prems(3) computePixel_withData col s1_def)
  have s1: "i < length (workers s1)" "workers s1 ! i = Computing ps"
    "fractal s1 = withData m (d((y, x) \<mapsto> col))" "nextBlock s1 = nextBlock s"
    "(workers s1)[i := Computing []] = (workers s)[i := Computing []]"
    using Cons.prems(1) by (simp_all add: s1_def setWorker_def)
  obtain s' d' where r: "runSchedule (replicate (length ps) i) s1 = Inr s'"
    "workers s' = (workers s1)[i := Computing []]" "nextBlock s' = nextBlock s1"
    "fractal s' = withData m d'"
    using Cons.IH [OF s1(1,2,3)] Cons.prems(4) by auto
  have "runSchedule (replicate (length (p # ps)) i) s = Inr s'"
    using step r(1) by simp
  then show ?case using r(2,3,4) s1(4,5) by auto
qed

text \<open>
  The bounds of a block are the edges while the second product fits in \<^verbatim>\<open>int\<close>, and
  the block lies in the raster.
\<close>

lemma blockBounds_fits:
  assumes "0 \<le> k" "0 \<le> width (image_m m)" "(k + 1) * width (image_m m) \<le> INT_MAX"
  shows "blockBounds m k = Inr (blockEdge (width (image_m m)) k, blockEdge (width (image_m m)) (k + 1))"
proof -
  let ?w = "width (image_m m)"
  have a: "0 \<le> k * ?w" "0 \<le> (k + 1) * ?w" using assms by simp_all
  have "k * ?w \<le> (k + 1) * ?w" using assms by (intro mult_right_mono) simp_all
  then have b: "k * ?w \<le> INT_MAX" "(k + 1) * ?w \<le> INT_MAX" using assms(3) by simp_all
  have c: "INT_MIN \<le> k * ?w" "INT_MIN \<le> (k + 1) * ?w" using a by (simp_all add: INT_MIN_def)
  show ?thesis
    using a b c by (simp add: blockBounds_def int_mul_def int_div_nonneg blockEdge_def)
qed

lemma blockPixels_fits:
  assumes "0 \<le> k" "0 \<le> width (image_m m)" "(k + 1) * width (image_m m) \<le> INT_MAX"
  shows "\<exists>ps. blockPixels (withData m d) k = Inr ps \<and> set ps = blockSet m k"
  using blockBounds_fits [of k "withData m d"] assms
  by (simp add: blockPixels_def set_areaPixels blockSet_def)

lemma blockSet_in_raster:
  assumes "0 \<le> width (image_m m)" "0 \<le> k" "k < 100"
  shows "blockSet m k \<subseteq> set (areaPixels 0 0 (width (image_m m)) (height (image_m m)))"
proof -
  have "blockSet m k \<subseteq> claimed m 100"
    unfolding claimed_def using assms(2,3) by blast
  moreover have "claimed m 100 = set (areaPixels 0 0 (width (image_m m)) (height (image_m m)))"
    by (rule claimed_all [OF assms(1)]) simp
  ultimately show ?thesis
    by simp
qed

text \<open>A thread takes one block, computes it and reports.\<close>

lemma run_block_fits:
  assumes w: "0 \<le> width (image_m m)"
    and ok: "\<And>x y. (x, y) \<in> set (areaPixels 0 0 (width (image_m m)) (height (image_m m))) \<Longrightarrow>
               \<exists>col. writtenColor m x y = Inr col"
    and i: "i < length (workers s)" "workers s ! i = Claiming"
    and k: "0 \<le> nextBlock s" "nextBlock s < 100"
    and fits: "(nextBlock s + 1) * width (image_m m) \<le> INT_MAX"
    and fr: "fractal s = withData m d"
  shows "\<exists>sched s' d'. runSchedule sched s = Inr s' \<and> workers s' = workers s \<and>
           nextBlock s' = nextBlock s + 1 \<and> fractal s' = withData m d'"
proof -
  obtain ps where ps: "blockPixels (fractal s) (nextBlock s) = Inr ps"
    "set ps = blockSet m (nextBlock s)"
    using blockPixels_fits [OF k(1) w fits] unfolding fr by blast
  define s1 where "s1 = setWorker i (Computing ps) (s\<lparr>nextBlock := nextBlock s + 1\<rparr>)"
  have step1: "workerStep i s = Inr s1"
    using i k ps(1) by (simp add: workerStep_def Let_def s1_def)
  have s1: "i < length (workers s1)" "workers s1 ! i = Computing ps" "fractal s1 = withData m d"
    "nextBlock s1 = nextBlock s + 1" "(workers s1)[i := Claiming] = workers s"
    using i fr by (simp_all add: s1_def setWorker_def) (metis list_update_id)
  have okps: "\<And>x y. (x, y) \<in> set ps \<Longrightarrow> \<exists>col. writtenColor m x y = Inr col"
    using ok ps(2) blockSet_in_raster [OF w k] by blast
  obtain s2 d2 where s2: "runSchedule (replicate (length ps) i) s1 = Inr s2"
    "workers s2 = (workers s1)[i := Computing []]" "nextBlock s2 = nextBlock s1"
    "fractal s2 = withData m d2"
    using run_pixels [OF s1(1,2,3) okps] by blast
  define s3 where "s3 = setWorker i Claiming (s2\<lparr>doneBlock := doneBlock s2 + 1\<rparr>)"
  have step3: "workerStep i s2 = Inr s3"
    using s1(1) by (simp add: workerStep_def s2(2) s3_def)
  have s3: "workers s3 = workers s" "nextBlock s3 = nextBlock s + 1" "fractal s3 = withData m d2"
    using s1(4,5) s2(2,3,4) by (simp_all add: s3_def setWorker_def)
  have "runSchedule (i # replicate (length ps) i @ [i]) s = Inr s3"
    using step1 s2(1) step3 by (simp add: runSchedule_append)
  then show ?thesis using s3 by blast
qed

text \<open>One thread can take the blocks one after the other, while their bounds fit.\<close>

lemma run_blocks_upto:
  assumes w: "0 \<le> width (image_m m)"
    and ok: "\<And>x y. (x, y) \<in> set (areaPixels 0 0 (width (image_m m)) (height (image_m m))) \<Longrightarrow>
               \<exists>col. writtenColor m x y = Inr col"
    and b: "b \<le> 100" "b * width (image_m m) \<le> INT_MAX"
  shows "\<lbrakk>i < length (workers s); workers s ! i = Claiming; 0 \<le> nextBlock s;
          nextBlock s + int j = b; fractal s = withData m d\<rbrakk> \<Longrightarrow>
         \<exists>sched s' d'. runSchedule sched s = Inr s' \<and> workers s' = workers s \<and>
           nextBlock s' = b \<and> fractal s' = withData m d'"
proof (induction j arbitrary: s d)
  case 0
  have "runSchedule [] s = Inr s" by simp
  then show ?case using 0(4,5) by fastforce
next
  case (Suc j)
  have lt: "nextBlock s < 100" using Suc.prems(4) b(1) by simp
  have "(nextBlock s + 1) * width (image_m m) \<le> b * width (image_m m)"
    using Suc.prems(4) w by (intro mult_right_mono) simp_all
  then have fits: "(nextBlock s + 1) * width (image_m m) \<le> INT_MAX"
    using b(2) by simp
  obtain sched1 s1 d1 where s1: "runSchedule sched1 s = Inr s1" "workers s1 = workers s"
    "nextBlock s1 = nextBlock s + 1" "fractal s1 = withData m d1"
    using run_block_fits [OF w ok Suc.prems(1,2,3) lt fits Suc.prems(5)] by blast
  have "\<exists>sched s' d'. runSchedule sched s1 = Inr s' \<and> workers s' = workers s1 \<and>
          nextBlock s' = b \<and> fractal s' = withData m d'"
    using Suc.prems s1 by (intro Suc.IH [of s1 d1]) simp_all
  then obtain sched2 s2 d2 where s2: "runSchedule sched2 s1 = Inr s2" "workers s2 = workers s1"
    "nextBlock s2 = b" "fractal s2 = withData m d2"
    by blast
  have "runSchedule (sched1 @ sched2) s = Inr s2"
    using s1(1) s2(1) by (simp add: runSchedule_append)
  then show ?case using s1(2) s2(2,3,4) by fastforce
qed

text \<open>When no block is left every thread leaves its loop at its next step.\<close>

lemma run_finish:
  "\<lbrakk>100 \<le> nextBlock s; workers s = replicate a Finished @ replicate b Claiming\<rbrakk> \<Longrightarrow>
   \<exists>s'. runSchedule [a..<a + b] s = Inr s' \<and> joined s'"
proof (induction b arbitrary: a s)
  case 0
  then show ?case by (simp add: joined_def list_all_iff)
next
  case (Suc b)
  define s1 where "s1 = setWorker a Finished (s\<lparr>nextBlock := nextBlock s + 1\<rparr>)"
  have a: "a < length (workers s)" "workers s ! a = Claiming"
    by (simp_all add: Suc.prems(2) nth_append)
  have step: "workerStep a s = Inr s1"
    using a Suc.prems(1) by (simp add: workerStep_def Let_def s1_def)
  have "(replicate a Finished @ replicate (Suc b) Claiming)[a := Finished]
          = replicate (Suc a) Finished @ replicate b Claiming"
    by (simp add: list_update_append replicate_append_same)
  then have s1: "100 \<le> nextBlock s1" "workers s1 = replicate (Suc a) Finished @ replicate b Claiming"
    using Suc.prems by (simp_all add: s1_def setWorker_def)
  obtain s' where s': "runSchedule [Suc a..<Suc a + b] s1 = Inr s'" "joined s'"
    using Suc.IH [OF s1] by blast
  have "[a..<a + Suc b] = a # [Suc a..<Suc a + b]"
    by (simp add: upt_conv_Cons)
  then have "runSchedule [a..<a + Suc b] s = Inr s'"
    using step s'(1) by simp
  then show ?case using s'(2) by blast
qed

text \<open>
  While \<open>100 \<cdot> width\<close> fits in \<^verbatim>\<open>int\<close>: if \<^verbatim>\<open>computeSingleCore\<close> returns, then
  \<^verbatim>\<open>computeMultiCore\<close> with at least one thread returns the same fractal under some
  schedule.
\<close>

lemma multicore_completes:
  assumes n: "0 < nThreads"
    and w: "0 \<le> width (image_m m)" "100 * width (image_m m) \<le> INT_MAX"
    and single: "computeSingleCore m = Inr m'"
  shows "\<exists>sched. computeMultiCore nThreads sched m = Some (Inr m')"
proof -
  have "computePixels (withData m (data (image_m m)))
          (areaPixels 0 0 (width (image_m m)) (height (image_m m))) = Inr m'"
    using single by (simp add: computeSingleCore_def computeArea_def)
  then have ok: "\<And>x y. (x, y) \<in> set (areaPixels 0 0 (width (image_m m)) (height (image_m m))) \<Longrightarrow>
               \<exists>col. writtenColor m x y = Inr col"
    by (rule computePixels_Inr_written)
  let ?s0 = "startThreads nThreads m"
  have s0: "0 < length (workers ?s0)" "workers ?s0 ! 0 = Claiming" "0 \<le> nextBlock ?s0"
    "nextBlock ?s0 + int 100 = 100" "fractal ?s0 = withData m (data (image_m m))"
    using n by (simp_all add: startThreads_def)
  have "(100::int) \<le> 100" "100 * width (image_m m) \<le> INT_MAX"
    using w(2) by simp_all
  from run_blocks_upto [OF w(1) ok this s0]
  obtain sched1 s1 where s1: "runSchedule sched1 ?s0 = Inr s1" "workers s1 = workers ?s0"
    "nextBlock s1 = 100"
    by blast
  have "workers s1 = replicate 0 Finished @ replicate nThreads Claiming"
    using s1(2) by (simp add: startThreads_def)
  moreover have "100 \<le> nextBlock s1" using s1(3) by simp
  ultimately obtain s2 where s2: "runSchedule [0..<0 + nThreads] s1 = Inr s2" "joined s2"
    using run_finish [of s1 0 nThreads] by blast
  have run: "runSchedule (sched1 @ [0..<0 + nThreads]) ?s0 = Inr s2"
    using s1(1) s2(1) by (simp add: runSchedule_append)
  then have r: "computeMultiCore nThreads (sched1 @ [0..<0 + nThreads]) m = Some (Inr (fractal s2))"
    using s2(2) by (simp add: computeMultiCore_def)
  have "computeSingleCore m = Inr (fractal s2)"
    by (rule multicore_agrees_with_singlecore [OF n w r])
  then have "fractal s2 = m'" using single by simp
  then show ?thesis using r by blast
qed

lemma writtenColor_pixelColor:
  "allocated (image_m m) x y \<Longrightarrow> writtenColor m x y = pixelColor m x y"
  by (simp add: writtenColor_def pixelColor_def cong: if_cong)

text \<open>The colour of every pixel of the raster after \<^verbatim>\<open>computeSingleCore\<close>.\<close>

lemma singlecore_pixel:
  assumes "computeSingleCore m = Inr m'"
    and "0 \<le> x" "x < width (image_m m)" "0 \<le> y" "y < height (image_m m)"
  shows "\<exists>col. pixelColor m x y = Inr col \<and> data (image_m m') (y, x) = Some col"
proof -
  let ?R = "set (areaPixels 0 0 (width (image_m m)) (height (image_m m)))"
  have run: "computePixels (withData m (data (image_m m)))
          (areaPixels 0 0 (width (image_m m)) (height (image_m m))) = Inr m'"
    using assms(1) by (simp add: computeSingleCore_def computeArea_def)
  have inR: "(x, y) \<in> ?R"
    using assms(2-5) by (simp add: set_areaPixels)
  then obtain col where col: "writtenColor m x y = Inr col"
    using computePixels_Inr_written [OF run] by blast
  have "\<And>x y. (x, y) \<in> ?R \<Longrightarrow> \<exists>col. writtenColor m x y = Inr col"
    using computePixels_Inr_written [OF run] by blast
  then have "m' = withData m (painted m (data (image_m m)) ?R)"
    using computePixels_success [of _ m "data (image_m m)"] run by simp
  then have "data (image_m m') (y, x) = Some col"
    using inR col by (simp add: painted_def)
  moreover have "pixelColor m x y = Inr col"
    using col writtenColor_pixelColor [OF in_raster_allocated [OF assms(2-5)]] by simp
  ultimately show ?thesis by blast
qed

text \<open>
  Different blocks have no pixel in common, and a block that is taken has no pixel in
  common with the blocks taken before.  So every pixel is computed at most once in a run
  of the threads, whatever the schedule: no cell of the image is written by two threads,
  which is what allows a call of \<^verbatim>\<open>computePixel\<close> to be taken as one step.
\<close>

lemma blockSet_disjoint:
  assumes "0 \<le> width (image_m m)" "k \<noteq> k'"
  shows "blockSet m k \<inter> blockSet m k' = {}"
proof (rule ccontr)
  assume "blockSet m k \<inter> blockSet m k' \<noteq> {}"
  then obtain x y where "(x, y) \<in> blockSet m k" "(x, y) \<in> blockSet m k'"
    by auto
  then have "k = k'"
    using block_disjoint [OF assms(1), of k x k'] by (simp add: blockSet_def)
  then show False using assms(2) by simp
qed

lemma claimed_fresh:
  assumes "0 \<le> width (image_m m)"
  shows "blockSet m k \<inter> claimed m k = {}"
proof -
  have "blockSet m k \<inter> blockSet m j = {}" if "j < k" for j
    using blockSet_disjoint [OF assms, of k j] that by simp
  then show ?thesis
    unfolding claimed_def by blast
qed

lemma distinct_row: "distinct (map (\<lambda>x. (x, y)) [l..r])"
  by (simp add: distinct_map inj_on_def)

lemma distinct_rows:
  "distinct ys \<Longrightarrow> distinct (concat (map (\<lambda>y. map (\<lambda>x. (x, y)) [l..r]) ys))"
proof (induction ys)
  case Nil
  then show ?case by simp
next
  case (Cons y ys)
  then show ?case
    by (auto simp: distinct_row)
qed

lemma distinct_areaPixels: "distinct (areaPixels l t r b)"
  unfolding areaPixels_def by (rule distinct_rows) simp

lemma blockPixels_distinct:
  assumes "0 \<le> k" "k < 100" "0 \<le> width (image_m m)" "100 * width (image_m m) \<le> INT_MAX"
    and "blockPixels (withData m d) k = Inr ps"
  shows "distinct ps \<and> set ps = blockSet m k"
  using blockBounds_ok [of k "withData m d"] assms distinct_areaPixels
  by (auto simp: blockPixels_def set_areaPixels blockSet_def)

lemma race_inv_bounds:
  "race_inv m Dn s \<Longrightarrow> 0 \<le> nextBlock s \<and> Dn \<subseteq> claimed m (nextBlock s) \<and>
     pending (workers s) \<subseteq> claimed m (nextBlock s)"
  by (simp add: race_inv_def)

lemma race_inv_fractal: "race_inv m Dn s \<Longrightarrow> \<exists>d. fractal s = withData m d"
  by (simp add: race_inv_def)

lemma race_inv_distinct:
  "race_inv m Dn s \<Longrightarrow> j < length (workers s) \<Longrightarrow> workers s ! j = Computing ps \<Longrightarrow>
   distinct ps \<and> set ps \<inter> Dn = {}"
  by (simp add: race_inv_def)

lemma race_inv_disjoint:
  "race_inv m Dn s \<Longrightarrow> j < length (workers s) \<Longrightarrow> j' < length (workers s) \<Longrightarrow> j \<noteq> j' \<Longrightarrow>
   pendingOf (workers s ! j) \<inter> pendingOf (workers s ! j') = {}"
  by (simp add: race_inv_def)

lemma race_inv_step:
  assumes w: "0 \<le> width (image_m m)" "100 * width (image_m m) \<le> INT_MAX"
    and inv: "race_inv m Dn s" and step: "workerStep i s = Inr s'"
  shows "race_inv m (Dn \<union> set (stepPixel i s)) s' \<and> set (stepPixel i s) \<inter> Dn = {}"
proof (cases "i < length (workers s)")
  case False
  then show ?thesis using step inv by (simp add: workerStep_def stepPixel_def)
next
  case i: True
  let ?ws = "workers s"
  let ?nb = "nextBlock s"
  from race_inv_bounds [OF inv] have nb: "0 \<le> ?nb"
    and dn: "Dn \<subseteq> claimed m ?nb" and pe: "pending ?ws \<subseteq> claimed m ?nb"
    by simp_all
  from race_inv_fractal [OF inv] obtain d where fr: "fractal s = withData m d"
    by blast
  note di = race_inv_distinct [OF inv]
  note dj = race_inv_disjoint [OF inv]
  have others: "pendingOf (?ws ! j) \<subseteq> claimed m ?nb" if "j < length ?ws" for j
    using pendingOf_nth_subset [OF that] pe by blast
  show ?thesis
  proof (cases "?ws ! i")
    case Claiming
    have sp: "stepPixel i s = []" using i Claiming by (simp add: stepPixel_def)
    show ?thesis
    proof (cases "?nb < 100")
      case True
      from step obtain ps where ps: "blockPixels (withData m d) ?nb = Inr ps"
        "s' = setWorker i (Computing ps) (s\<lparr>nextBlock := ?nb + 1\<rparr>)"
        using i Claiming True fr by (auto simp: workerStep_def Let_def bindE_eq_Inr)
      have bp: "distinct ps" "set ps = blockSet m ?nb"
        using blockPixels_distinct [OF nb True w ps(1)] by simp_all
      have cn: "claimed m (?nb + 1) = claimed m ?nb \<union> blockSet m ?nb"
        by (rule claimed_next [OF nb True])
      have fresh: "blockSet m ?nb \<inter> claimed m ?nb = {}"
        by (rule claimed_fresh [OF w(1)])
      let ?ws' = "?ws[i := Computing ps]"
      have sel: "workers s' = ?ws'" "nextBlock s' = ?nb + 1" "fractal s' = withData m d"
        by (simp_all add: ps(2) setWorker_def fr)
      have p': "pending ?ws' \<subseteq> claimed m (?nb + 1)"
        using pending_update_subset [of ?ws i "Computing ps"] pe bp(2) cn by auto
      have "race_inv m Dn s'"
        unfolding race_inv_def sel
      proof (intro conjI allI impI)
        show "0 \<le> ?nb + 1" using nb by simp
        show "\<exists>d'. withData m d = withData m d'" by blast
        show "Dn \<subseteq> claimed m (?nb + 1)" using dn cn by blast
        show "pending ?ws' \<subseteq> claimed m (?nb + 1)" by (rule p')
      next
        fix j qs assume j: "j < length ?ws'" "?ws' ! j = Computing qs"
        show "distinct qs"
        proof (cases "j = i")
          case True
          then show ?thesis using j i bp(1) by simp
        next
          case False
          then show ?thesis using j di [of j qs] by simp
        qed
        show "set qs \<inter> Dn = {}"
        proof (cases "j = i")
          case True
          then have "qs = ps" using j i by simp
          then show ?thesis using bp(2) fresh dn by blast
        next
          case False
          then show ?thesis using j di [of j qs] by simp
        qed
      next
        fix j j' assume j: "j < length ?ws'" "j' < length ?ws'" "j \<noteq> j'"
        have new: "pendingOf (?ws ! k) \<inter> set ps = {}" if "k < length ?ws" for k
          using others [OF that] bp(2) fresh by blast
        show "pendingOf (?ws' ! j) \<inter> pendingOf (?ws' ! j') = {}"
        proof (cases "j = i")
          case True
          then show ?thesis using j i new [of j'] by (simp add: Int_commute)
        next
          case ji: False
          show ?thesis
          proof (cases "j' = i")
            case True
            then show ?thesis using j i ji new [of j] by simp
          next
            case False
            then show ?thesis using j ji dj [of j j'] by simp
          qed
        qed
      qed
      then show ?thesis by (simp add: sp)
    next
      case False
      then have s': "s' = setWorker i Finished (s\<lparr>nextBlock := ?nb + 1\<rparr>)"
        using step i Claiming by (simp add: workerStep_def Let_def)
      have cn: "claimed m (?nb + 1) = claimed m ?nb"
        using False by (intro claimed_done) simp
      let ?ws' = "?ws[i := Finished]"
      have sel: "workers s' = ?ws'" "nextBlock s' = ?nb + 1" "fractal s' = withData m d"
        by (simp_all add: s' setWorker_def fr)
      have p': "pending ?ws' \<subseteq> claimed m (?nb + 1)"
        using pending_update_subset [of ?ws i Finished] pe cn by auto
      have "race_inv m Dn s'"
        unfolding race_inv_def sel
      proof (intro conjI allI impI)
        show "0 \<le> ?nb + 1" using nb by simp
        show "\<exists>d'. withData m d = withData m d'" by blast
        show "Dn \<subseteq> claimed m (?nb + 1)" using dn cn by blast
        show "pending ?ws' \<subseteq> claimed m (?nb + 1)" by (rule p')
      next
        fix j qs assume j: "j < length ?ws'" "?ws' ! j = Computing qs"
        then have "j \<noteq> i" using i by auto
        then show "distinct qs" "set qs \<inter> Dn = {}" using j di [of j qs] by simp_all
      next
        fix j j' assume j: "j < length ?ws'" "j' < length ?ws'" "j \<noteq> j'"
        show "pendingOf (?ws' ! j) \<inter> pendingOf (?ws' ! j') = {}"
          using j dj [of j j'] i by (cases "j = i"; cases "j' = i") simp_all
      qed
      then show ?thesis by (simp add: sp)
    qed
  next
    case (Computing ps)
    show ?thesis
    proof (cases ps)
      case Nil
      have sp: "stepPixel i s = []" using i Computing Nil by (simp add: stepPixel_def)
      have s': "s' = setWorker i Claiming (s\<lparr>doneBlock := doneBlock s + 1\<rparr>)"
        using step i Computing Nil by (simp add: workerStep_def)
      let ?ws' = "?ws[i := Claiming]"
      have sel: "workers s' = ?ws'" "nextBlock s' = ?nb" "fractal s' = withData m d"
        by (simp_all add: s' setWorker_def fr)
      have p': "pending ?ws' \<subseteq> claimed m ?nb"
        using pending_update_subset [of ?ws i Claiming] pe by auto
      have "race_inv m Dn s'"
        unfolding race_inv_def sel
      proof (intro conjI allI impI)
        show "0 \<le> ?nb" by (rule nb)
        show "\<exists>d'. withData m d = withData m d'" by blast
        show "Dn \<subseteq> claimed m ?nb" by (rule dn)
        show "pending ?ws' \<subseteq> claimed m ?nb" by (rule p')
      next
        fix j qs assume j: "j < length ?ws'" "?ws' ! j = Computing qs"
        then have "j \<noteq> i" using i by auto
        then show "distinct qs" "set qs \<inter> Dn = {}" using j di [of j qs] by simp_all
      next
        fix j j' assume j: "j < length ?ws'" "j' < length ?ws'" "j \<noteq> j'"
        show "pendingOf (?ws' ! j) \<inter> pendingOf (?ws' ! j') = {}"
          using j dj [of j j'] i by (cases "j = i"; cases "j' = i") simp_all
      qed
      then show ?thesis by (simp add: sp)
    next
      case (Cons p ps')
      obtain x y where p: "p = (x, y)" by (cases p)
      have sp: "stepPixel i s = [p]" using i Computing Cons by (simp add: stepPixel_def)
      from step obtain m' where m': "computePixel (withData m d) x y = Inr m'"
        "s' = setWorker i (Computing ps') (s\<lparr>fractal := m'\<rparr>)"
        using i Computing Cons p fr by (auto simp: workerStep_def bindE_eq_Inr)
      obtain d' where d': "m' = withData m d'"
        using m'(1) by (auto simp: computePixel_withData bindE_eq_Inr)
      let ?ws' = "?ws[i := Computing ps']"
      have sel: "workers s' = ?ws'" "nextBlock s' = ?nb" "fractal s' = withData m d'"
        by (simp_all add: m'(2) setWorker_def d')
      have mine: "distinct (p # ps')" "set (p # ps') \<inter> Dn = {}"
        using di [OF i, of "p # ps'"] Computing Cons by simp_all
      have pin: "p \<in> claimed m ?nb"
        using others [OF i] Computing Cons by simp
      have p': "pending ?ws' \<subseteq> claimed m ?nb"
        using pending_update_subset [of ?ws i "Computing ps'"] pe others [OF i] Computing Cons
        by auto
      have "race_inv m (Dn \<union> {p}) s'"
        unfolding race_inv_def sel
      proof (intro conjI allI impI)
        show "0 \<le> ?nb" by (rule nb)
        show "\<exists>d''. withData m d' = withData m d''" by blast
        show "Dn \<union> {p} \<subseteq> claimed m ?nb" using dn pin by blast
        show "pending ?ws' \<subseteq> claimed m ?nb" by (rule p')
      next
        fix j qs assume j: "j < length ?ws'" "?ws' ! j = Computing qs"
        show "distinct qs"
        proof (cases "j = i")
          case True
          then show ?thesis using j i mine(1) by simp
        next
          case False
          then show ?thesis using j di [of j qs] by simp
        qed
        show "set qs \<inter> (Dn \<union> {p}) = {}"
        proof (cases "j = i")
          case True
          then have "qs = ps'" using j i by simp
          then show ?thesis using mine by auto
        next
          case False
          then have q: "?ws ! j = Computing qs" "j < length ?ws" using j by simp_all
          have "pendingOf (?ws ! j) \<inter> pendingOf (?ws ! i) = {}"
            using dj [of j i] q(2) i False by simp
          then have "p \<notin> set qs" using q(1) Computing Cons by auto
          then show ?thesis using di [OF q(2) q(1)] by auto
        qed
      next
        fix j j' assume j: "j < length ?ws'" "j' < length ?ws'" "j \<noteq> j'"
        have sub: "pendingOf (?ws' ! k) \<subseteq> pendingOf (?ws ! k)" if "k < length ?ws" for k
          using that i Computing Cons by (cases "k = i") auto
        have "pendingOf (?ws ! j) \<inter> pendingOf (?ws ! j') = {}"
          using dj [of j j'] j by simp
        then show "pendingOf (?ws' ! j) \<inter> pendingOf (?ws' ! j') = {}"
          using sub [of j] sub [of j'] j by auto
      qed
      moreover have "set [p] \<inter> Dn = {}" using mine(2) by simp
      ultimately show ?thesis by (simp add: sp)
    qed
  next
    case Finished
    then have "s' = s" "stepPixel i s = []"
      using step i by (simp_all add: workerStep_def stepPixel_def)
    then show ?thesis using inv by simp
  qed
qed

lemma computedPixels_distinct:
  assumes w: "0 \<le> width (image_m m)" "100 * width (image_m m) \<le> INT_MAX"
  shows "race_inv m Dn s \<Longrightarrow>
         distinct (computedPixels sched s) \<and> set (computedPixels sched s) \<inter> Dn = {}"
proof (induction sched arbitrary: s Dn)
  case Nil
  then show ?case by simp
next
  case (Cons i sched)
  show ?case
  proof (cases "workerStep i s")
    case (Inl e)
    then show ?thesis by simp
  next
    case (Inr s')
    have st: "race_inv m (Dn \<union> set (stepPixel i s)) s'" "set (stepPixel i s) \<inter> Dn = {}"
      using race_inv_step [OF w Cons.prems Inr] by simp_all
    have ih: "distinct (computedPixels sched s')"
      "set (computedPixels sched s') \<inter> (Dn \<union> set (stepPixel i s)) = {}"
      using Cons.IH [OF st(1)] by simp_all
    have one: "distinct (stepPixel i s)"
      by (simp add: stepPixel_def split: worker.splits list.splits)
    have "distinct (stepPixel i s @ computedPixels sched s')"
      using one ih by auto
    moreover have "set (stepPixel i s @ computedPixels sched s') \<inter> Dn = {}"
      using st(2) ih(2) by auto
    ultimately show ?thesis by (simp add: Inr)
  qed
qed

lemma race_inv_start: "race_inv m {} (startThreads n m)"
proof -
  have "fractal (startThreads n m) = withData m (data (image_m m))"
    by (simp add: startThreads_def)
  then have "\<exists>d. fractal (startThreads n m) = withData m d"
    by blast
  then show ?thesis
    by (simp add: race_inv_def startThreads_def pending_def claimed_def)
qed

lemma no_pixel_computed_twice:
  assumes "0 \<le> width (image_m m)" "100 * width (image_m m) \<le> INT_MAX"
  shows "distinct (computedPixels sched (startThreads nThreads m))"
  using computedPixels_distinct [OF assms race_inv_start] by simp

text \<open>The image too wide.\<close>

lemma computePixel_width:
  "computePixel m x y = Inr m' \<Longrightarrow> width (image_m m') = width (image_m m)"
  by (auto simp: computePixel_written bindE_eq_Inr setPixel_def)

lemma blockPixels_last_overflow:
  assumes "INT_MAX < 100 * width (image_m m)"
  shows "blockPixels m 99 = Inl SignedOverflow"
  using assms by (simp add: blockPixels_def blockBounds_def int_mul_def bindE_def)

lemma overflow_inv_step:
  assumes big: "INT_MAX < 100 * w" and inv: "overflow_inv w n s"
    and step: "workerStep i s = Inr s'"
  shows "overflow_inv w n s'"
proof (cases "i < length (workers s)")
  case False
  then show ?thesis using step inv by (simp add: workerStep_def)
next
  case i: True
  from inv have len: "length (workers s) = n" and nofin: "Finished \<notin> set (workers s)"
    and nb: "nextBlock s \<le> 99" and wd: "width (image_m (fractal s)) = w"
    by (simp_all add: overflow_inv_def)
  have keep: "Finished \<notin> set ((workers s)[i := w'])" if "w' \<noteq> Finished" for w'
    using Finished_update [of "workers s" i w'] nofin that by auto
  show ?thesis
  proof (cases "workers s ! i")
    case Claiming
    have lt: "nextBlock s < 100" using nb by simp
    from step obtain ps where ps: "blockPixels (fractal s) (nextBlock s) = Inr ps"
      "s' = setWorker i (Computing ps) (s\<lparr>nextBlock := nextBlock s + 1\<rparr>)"
      using i Claiming lt by (auto simp: workerStep_def Let_def bindE_eq_Inr)
    have "nextBlock s \<noteq> 99"
      using blockPixels_last_overflow [of "fractal s"] big wd ps(1) by auto
    then have "nextBlock s + 1 \<le> 99" using nb by simp
    then show ?thesis
      unfolding ps(2) overflow_inv_def setWorker_def using len wd keep [of "Computing ps"] by simp
  next
    case (Computing ps)
    show ?thesis
    proof (cases ps)
      case Nil
      then have "s' = setWorker i Claiming (s\<lparr>doneBlock := doneBlock s + 1\<rparr>)"
        using step i Computing by (simp add: workerStep_def)
      then show ?thesis
        unfolding overflow_inv_def setWorker_def using len wd nb keep [of Claiming] by simp
    next
      case (Cons p ps')
      obtain x y where p: "p = (x, y)" by (cases p)
      from step obtain m' where m': "computePixel (fractal s) x y = Inr m'"
        "s' = setWorker i (Computing ps') (s\<lparr>fractal := m'\<rparr>)"
        using i Computing Cons p by (auto simp: workerStep_def bindE_eq_Inr)
      show ?thesis
        unfolding m'(2) overflow_inv_def setWorker_def
        using len wd nb keep [of "Computing ps'"] computePixel_width [OF m'(1)] by simp
    qed
  next
    case Finished
    then show ?thesis using nofin nth_mem [OF i] by simp
  qed
qed

lemma overflow_inv_run:
  "INT_MAX < 100 * w \<Longrightarrow> overflow_inv w n s \<Longrightarrow> runSchedule sched s = Inr s' \<Longrightarrow>
   overflow_inv w n s'"
proof (induction sched arbitrary: s)
  case Nil
  then show ?case by simp
next
  case (Cons i sched)
  from Cons.prems(3) obtain s1 where s1: "workerStep i s = Inr s1" "runSchedule sched s1 = Inr s'"
    by (auto simp: bindE_eq_Inr)
  have "overflow_inv w n s1"
    by (rule overflow_inv_step [OF Cons.prems(1,2) s1(1)])
  then show ?case using Cons.IH [OF Cons.prems(1) _ s1(2)] by simp
qed

text \<open>
  With at least one thread, no run of the threads on such an image ends with every
  thread out of its loop.
\<close>

lemma multicore_never_returns:
  assumes "0 < nThreads" "INT_MAX < 100 * width (image_m m)"
  shows "computeMultiCore nThreads sched m \<noteq> Some (Inr m')"
proof
  assume "computeMultiCore nThreads sched m = Some (Inr m')"
  then obtain s where s: "runSchedule sched (startThreads nThreads m) = Inr s" "joined s"
    by (auto simp: computeMultiCore_def split: sum.splits if_splits)
  have "overflow_inv (width (image_m m)) nThreads (startThreads nThreads m)"
    by (simp add: overflow_inv_def startThreads_def)
  then have "overflow_inv (width (image_m m)) nThreads s"
    using overflow_inv_run [OF assms(2) _ s(1)] by simp
  then have "length (workers s) = nThreads" "Finished \<notin> set (workers s)"
    by (simp_all add: overflow_inv_def)
  moreover have "workers s \<noteq> [] \<Longrightarrow> Finished \<in> set (workers s)"
    using s(2) by (cases "workers s") (auto simp: joined_def)
  ultimately show False using assms(1) by auto
qed

text \<open>
  The first block whose second product does not fit, and a run of the threads that
  reaches it: one thread takes the blocks before it, and its next step computes the
  product.
\<close>

lemma first_overflow_block:
  assumes "INT_MAX < 100 * w"
  shows "\<exists>k. 0 \<le> k \<and> k < 100 \<and> k * w \<le> INT_MAX \<and> INT_MAX < (k + 1) * w"
proof -
  have w: "0 < w"
    using assms by (simp add: INT_MAX_def)
  define k where "k = INT_MAX div w"
  have e: "INT_MAX = k * w + INT_MAX mod w"
    by (simp add: k_def)
  have md: "0 \<le> INT_MAX mod w" "INT_MAX mod w < w"
    using w by simp_all
  have le: "k * w \<le> INT_MAX"
    using e md(1) by linarith
  have gt: "INT_MAX < (k + 1) * w"
    using e md(2) by (simp add: algebra_simps)
  have "0 \<le> k"
    unfolding k_def using w by (simp add: pos_imp_zdiv_nonneg_iff INT_MAX_def)
  moreover have "k < 100"
  proof (rule ccontr)
    assume "\<not> k < 100"
    then have "100 * w \<le> k * w"
      using w by (intro mult_right_mono) simp_all
    then show False
      using le assms by linarith
  qed
  ultimately show ?thesis
    using le gt by blast
qed

lemma blockBounds_overflows:
  assumes "0 \<le> k" "0 \<le> width (image_m m)" "k * width (image_m m) \<le> INT_MAX"
    "INT_MAX < (k + 1) * width (image_m m)"
  shows "blockBounds m k = Inl SignedOverflow"
proof -
  let ?w = "width (image_m m)"
  have "0 \<le> k * ?w" using assms by simp
  then have "INT_MIN \<le> k * ?w" by (simp add: INT_MIN_def)
  then show ?thesis
    using assms(3,4) by (simp add: blockBounds_def int_mul_def)
qed

lemma multicore_reaches_overflow:
  assumes n: "0 < nThreads" and big: "INT_MAX < 100 * width (image_m m)"
    and single: "computeSingleCore m = Inr m1"
  shows "\<exists>sched. computeMultiCore nThreads sched m = Some (Inl SignedOverflow)"
proof -
  let ?w = "width (image_m m)"
  have w: "0 \<le> ?w"
    using big by (simp add: INT_MAX_def)
  have "computePixels (withData m (data (image_m m)))
          (areaPixels 0 0 (width (image_m m)) (height (image_m m))) = Inr m1"
    using single by (simp add: computeSingleCore_def computeArea_def)
  then have ok: "\<And>x y. (x, y) \<in> set (areaPixels 0 0 (width (image_m m)) (height (image_m m))) \<Longrightarrow>
               \<exists>col. writtenColor m x y = Inr col"
    by (rule computePixels_Inr_written)
  obtain k where k: "0 \<le> k" "k < 100" "k * ?w \<le> INT_MAX" "INT_MAX < (k + 1) * ?w"
    using first_overflow_block [OF big] by blast
  let ?s0 = "startThreads nThreads m"
  have s0: "0 < length (workers ?s0)" "workers ?s0 ! 0 = Claiming" "0 \<le> nextBlock ?s0"
    "nextBlock ?s0 + int (nat k) = k" "fractal ?s0 = withData m (data (image_m m))"
    using n k(1) by (simp_all add: startThreads_def)
  have kb: "k \<le> 100" using k(2) by simp
  obtain sched1 s1 d1 where s1: "runSchedule sched1 ?s0 = Inr s1" "workers s1 = workers ?s0"
    "nextBlock s1 = k" "fractal s1 = withData m d1"
    using run_blocks_upto [OF w ok kb k(3) s0] by blast
  have "blockBounds (withData m d1) k = Inl SignedOverflow"
    using k w by (intro blockBounds_overflows) simp_all
  then have "blockPixels (fractal s1) (nextBlock s1) = Inl SignedOverflow"
    by (simp add: blockPixels_def s1(3,4))
  then have "workerStep 0 s1 = Inl SignedOverflow"
    using s0(1,2) k(2) by (simp add: workerStep_def Let_def s1(2,3))
  then have "runSchedule (sched1 @ [0]) ?s0 = Inl SignedOverflow"
    using s1(1) by (simp add: runSchedule_append)
  then have "computeMultiCore nThreads (sched1 @ [0]) m = Some (Inl SignedOverflow)"
    by (simp add: computeMultiCore_def)
  then show ?thesis ..
qed

text \<open>
  \<^verbatim>\<open>computeSingleCore\<close> returns when every pixel of the raster has a colour; a pixel
  whose orbit stays below the threshold has the body colour.
\<close>

lemma singlecore_completes:
  assumes "\<And>x y. \<lbrakk>0 \<le> x; x < width (image_m m); 0 \<le> y; y < height (image_m m)\<rbrakk> \<Longrightarrow>
             \<exists>col. writtenColor m x y = Inr col"
  shows "\<exists>m1. computeSingleCore m = Inr m1"
proof -
  have "computePixels (withData m (data (image_m m)))
          (areaPixels 0 0 (width (image_m m)) (height (image_m m)))
        = Inr (withData m (painted m (data (image_m m))
            (set (areaPixels 0 0 (width (image_m m)) (height (image_m m))))))"
  proof (rule computePixels_success)
    fix x y assume "(x, y) \<in> set (areaPixels 0 0 (width (image_m m)) (height (image_m m)))"
    then show "\<exists>col. writtenColor m x y = Inr col"
      using assms [of x y] by (simp add: set_areaPixels)
  qed
  then show ?thesis
    by (simp add: computeSingleCore_def computeArea_def)
qed

lemma interior_writtenColor:
  assumes "maxIterations m < INT_MAX" "allocated (image_m m) x y"
    and "\<And>k. std_norm (orbit (pixelPoint m x y) k) < stopNorm m"
  shows "writtenColor m x y = Inr (bodyColor m)"
proof -
  obtain z iN where "loopExit m x y = Inr (z, iN)" "maxIterations m \<le> iN"
    using loopExit_interior [of m x y] assms(1,3) by blast
  then show ?thesis
    using assms(2) by (simp add: writtenColor_def chooseColor_def)
qed

text \<open>
  A point \<open>c\<close> with \<open>|c| \<le> 1/4\<close> has an orbit within \<open>|z| \<le> 1/2\<close>.  The fractal with
  resolution \<open>2\<^sup>2\<^sup>7\<close> on the rectangle from \<open>(0, 2\<^sup>-\<^sup>2\<^sup>7)\<close> to \<open>(0.1875, 0)\<close> has a raster
  25165824 wide and 1 high, and all its pixels are such points.
\<close>

lemma orbit_small:
  assumes "cmod c \<le> 1 / 4"
  shows "cmod (orbit c k) \<le> 1 / 2"
proof (induction k)
  case 0
  then show ?case using assms by simp
next
  case (Suc k)
  have "cmod (orbit c k * orbit c k) = cmod (orbit c k) * cmod (orbit c k)"
    by (rule norm_mult)
  also have "\<dots> \<le> 1 / 2 * (1 / 2)"
    using Suc by (intro mult_mono) simp_all
  finally have sq: "cmod (orbit c k * orbit c k) \<le> 1 / 4"
    by simp
  have "cmod (orbit c k * orbit c k + c) \<le> cmod (orbit c k * orbit c k) + cmod c"
    by (rule norm_triangle_ineq)
  then show ?case
    using sq assms by (simp add: step_def)
qed

lemma std_norm_small:
  assumes "cmod z \<le> 1 / 2"
  shows "std_norm z < 400"
proof -
  have "cmod z * cmod z \<le> 1 / 2 * (1 / 2)"
    using assms by (intro mult_mono) simp_all
  then show ?thesis
    by (simp add: std_norm_cmod power2_eq_square)
qed

lemma wide_fields:
  assumes "Mandlebrot_ctor 134217728 0 (1 / 134217728) (3 / 16) 0 = Inr m0"
  shows "width (image_m m0) = 25165824" "height (image_m m0) = 1"
  using ctor_raster [OF assms] by (simp_all add: trunc_toward_zero_def)

lemma wide_point:
  assumes m0: "Mandlebrot_ctor 134217728 0 (1 / 134217728) (3 / 16) 0 = Inr m0"
    and x: "0 \<le> x" "x < 25165824"
  shows "cmod (pixelPoint (push_back_all cs m0) x 0) \<le> 1 / 4"
proof -
  let ?c = "pixelPoint (push_back_all cs m0) x 0"
  have re: "Re ?c = 3 / 16 * (real_of_int x / 25165824)" and im: "Im ?c = 1 / 134217728"
    by (simp_all add: pixelPoint_def ctor_fields [OF m0] wide_fields [OF m0])
  have "0 \<le> real_of_int x / 25165824" "real_of_int x / 25165824 \<le> 1"
    using x by simp_all
  then have "0 \<le> Re ?c" "Re ?c \<le> 3 / 16"
    unfolding re by simp_all
  then have "\<bar>Re ?c\<bar> + \<bar>Im ?c\<bar> \<le> 1 / 4"
    unfolding im by simp
  moreover have "cmod ?c \<le> \<bar>Re ?c\<bar> + \<bar>Im ?c\<bar>"
    by (rule cmod_le)
  ultimately show ?thesis
    by linarith
qed

lemma wide_pixel:
  assumes m0: "Mandlebrot_ctor 134217728 0 (1 / 134217728) (3 / 16) 0 = Inr m0"
    and x: "0 \<le> x" "x < 25165824"
  shows "writtenColor (push_back_all cs m0) x 0 = Inr \<lparr>red = 0, green = 0, blue = 0\<rparr>"
proof -
  let ?m = "push_back_all cs m0"
  have "writtenColor ?m x 0 = Inr (bodyColor ?m)"
  proof (rule interior_writtenColor)
    show "maxIterations ?m < INT_MAX"
      by (simp add: ctor_fields [OF m0] INT_MAX_def)
    show "allocated (image_m ?m) x 0"
      using x by (simp add: allocated_def wide_fields [OF m0])
    show "std_norm (orbit (pixelPoint ?m x 0) k) < stopNorm ?m" for k
      using std_norm_small [OF orbit_small [OF wide_point [OF m0 x]]]
      by (simp add: ctor_fields [OF m0])
  qed
  then show ?thesis
    by (simp add: ctor_fields [OF m0])
qed

text \<open>
  Claim C1 says that \<^verbatim>\<open>computeMultiCore\<close> writes the colours of \<^verbatim>\<open>computeSingleCore\<close>
  for every set of parameters.  \<^verbatim>\<open>computeMultiCore\<close> computes
  \<^verbatim>\<open>(currentBlock+1) * image.width\<close> in \<^verbatim>\<open>int\<close>, which \<^verbatim>\<open>computeSingleCore\<close>
  does not.  For an image with \<open>100 \<cdot> width\<close> above \<^verbatim>\<open>INT_MAX\<close> on which
  \<^verbatim>\<open>computeSingleCore\<close> returns, having assigned its colour to every pixel of the
  raster: with at least one thread there is a run of \<^verbatim>\<open>computeMultiCore\<close> in which the
  product overflows, and under no schedule does \<^verbatim>\<open>computeMultiCore\<close> return with an
  image computed.
\<close>

theorem computeMultiCore_overflow:
  assumes "0 < nThreads" "INT_MAX < 100 * width (image_m m)" "computeSingleCore m = Inr m1"
  shows "(\<forall>x y. 0 \<le> x \<and> x < width (image_m m) \<and> 0 \<le> y \<and> y < height (image_m m) \<longrightarrow>
            (\<exists>col. pixelColor m x y = Inr col \<and> data (image_m m1) (y, x) = Some col)) \<and>
         (\<exists>sched. computeMultiCore nThreads sched m = Some (Inl SignedOverflow)) \<and>
         (\<forall>sched m'. computeMultiCore nThreads sched m \<noteq> Some (Inr m'))"
proof (intro conjI allI impI)
  fix x y
  assume "0 \<le> x \<and> x < width (image_m m) \<and> 0 \<le> y \<and> y < height (image_m m)"
  then show "\<exists>col. pixelColor m x y = Inr col \<and> data (image_m m1) (y, x) = Some col"
    using singlecore_pixel [OF assms(3), of x y] by simp
next
  show "\<exists>sched. computeMultiCore nThreads sched m = Some (Inl SignedOverflow)"
    using assms by (rule multicore_reaches_overflow)
next
  fix sched m'
  show "computeMultiCore nThreads sched m \<noteq> Some (Inr m')"
    using assms(1,2) by (rule multicore_never_returns)
qed

text \<open>
  The theorem for the fractal with resolution \<open>2\<^sup>2\<^sup>7\<close> on the rectangle from
  \<open>(0, 2\<^sup>-\<^sup>2\<^sup>7)\<close> to \<open>(0.1875, 0)\<close> and the five colours of \<^verbatim>\<open>main\<close>:
  \<^verbatim>\<open>computeSingleCore\<close> assigns the body colour to each of the 25165824 pixels, and
  the threads fail at block 85, where \<open>86 \<cdot> 25165824\<close> exceeds \<^verbatim>\<open>INT_MAX\<close>.
\<close>

theorem computeMultiCore_overflow_witness:
  "\<exists>m0 m1. Mandlebrot_ctor 134217728 0 (1 / 134217728) (3 / 16) 0 = Inr m0 \<and>
     (let m = push_back_all mainColors m0 in
        width (image_m m) = 25165824 \<and> height (image_m m) = 1 \<and> length (colorList m) = 5 \<and>
        (0::nat) < 1 \<and> INT_MAX < 100 * width (image_m m) \<and>
        computeSingleCore m = Inr m1 \<and>
        (\<forall>x. 0 \<le> x \<and> x < 25165824 \<longrightarrow>
           data (image_m m1) (0, x) = Some \<lparr>red = 0, green = 0, blue = 0\<rparr>) \<and>
        blockBounds m 84 = Inr (21139292, 21390950) \<and> blockBounds m 85 = Inl SignedOverflow \<and>
        (\<exists>sched. computeMultiCore 1 sched m = Some (Inl SignedOverflow)) \<and>
        (\<forall>sched m'. computeMultiCore 1 sched m \<noteq> Some (Inr m')))"
proof -
  obtain m0 where m0: "Mandlebrot_ctor 134217728 0 (1 / 134217728) (3 / 16) 0 = Inr m0"
    by (simp add: ctor_defs)
  define m where "m = push_back_all mainColors m0"
  have size: "width (image_m m) = 25165824" "height (image_m m) = 1"
    by (simp_all add: m_def wide_fields [OF m0])
  have len: "length (colorList m) = 5"
    by (simp add: m_def ctor_fields [OF m0] mainColors_def)
  have h: "(0::nat) < 1" "INT_MAX < 100 * width (image_m m)"
    by (simp_all add: size INT_MAX_def)
  have px: "writtenColor m x 0 = Inr \<lparr>red = 0, green = 0, blue = 0\<rparr>"
    if "0 \<le> x" "x < 25165824" for x
    unfolding m_def using m0 that by (rule wide_pixel)
  have "\<exists>m1. computeSingleCore m = Inr m1"
  proof (rule singlecore_completes)
    fix x y :: int
    assume "0 \<le> x" "x < width (image_m m)" "0 \<le> y" "y < height (image_m m)"
    then have "0 \<le> x" "x < 25165824" "y = 0"
      by (simp_all add: size)
    then show "\<exists>col. writtenColor m x y = Inr col"
      using px [of x] by simp
  qed
  then obtain m1 where m1: "computeSingleCore m = Inr m1"
    by blast
  note t = computeMultiCore_overflow [OF h m1]
  have body: "data (image_m m1) (0, x) = Some \<lparr>red = 0, green = 0, blue = 0\<rparr>"
    if x: "0 \<le> x" "x < 25165824" for x
  proof -
    have "0 \<le> x \<and> x < width (image_m m) \<and> (0::int) \<le> 0 \<and> 0 < height (image_m m)"
      using x by (simp add: size)
    with t obtain col where col: "pixelColor m x 0 = Inr col" "data (image_m m1) (0, x) = Some col"
      by blast
    have "allocated (image_m m) x 0"
      using x by (simp add: allocated_def size)
    then have "pixelColor m x 0 = Inr \<lparr>red = 0, green = 0, blue = 0\<rparr>"
      using px [OF x] writtenColor_pixelColor [of m x 0] by simp
    then show ?thesis
      using col by simp
  qed
  have bb: "blockBounds m 84 = Inr (21139292, 21390950)" "blockBounds m 85 = Inl SignedOverflow"
    by (simp_all add: blockBounds_def int_mul_def int_div_def size INT_MAX_def INT_MIN_def)
  have "\<exists>sched. computeMultiCore 1 sched m = Some (Inl SignedOverflow)"
    "\<forall>sched m'. computeMultiCore 1 sched m \<noteq> Some (Inr m')"
    using t by blast+
  then show ?thesis
    using m0 size len h m1 body bb unfolding m_def Let_def
    by (intro exI [of _ m0] exI [of _ m1]) simp
qed

end
